theory Spec2Isabelle
  imports Main "HOL-Library.AList" "HOL-Library.Sublist" "HOL-Library.Char_ord"
    "HOL-Library.List_Lexorder" "HOL-Library.Product_Lexorder"
begin

section \<open>Values shared by both modules\<close>

text \<open>
  A Python \<open>str\<close> is modelled as the \<open>char list\<close> of its UTF-8 encoding (comparison of
  such lists by bytes agrees with Python's comparison by code points). A Python \<open>dict\<close>
  with string keys is an association list in insertion order: \<open>map_of\<close> reads a key,
  \<open>AList.update\<close> is the assignment \<open>d[k] = v\<close> (in place for a key that is present,
  appended otherwise). A value decoded from JSON is a \<open>json\<close>; floats are left out.
\<close>

datatype json =
    JNull
  | JBool bool
  | JInt int
  | JStr string
  | JArr "json list"
  | JObj "(string \<times> json) list"

datatype error = TypeError | KeyError | JSONDecodeError | OSError

text \<open>\<open>d.get(k, default)\<close>\<close>

definition py_get :: "('k \<times> 'a) list \<Rightarrow> 'k \<Rightarrow> 'a \<Rightarrow> 'a" where
  "py_get d k dflt = (case map_of d k of Some v \<Rightarrow> v | None \<Rightarrow> dflt)"

text \<open>\<open>d[k]\<close> as a read: raises \<open>KeyError\<close> for a missing key.\<close>

definition py_item :: "(string \<times> 'a) list \<Rightarrow> string \<Rightarrow> error + 'a" where
  "py_item d k = (case map_of d k of Some v \<Rightarrow> Inr v | None \<Rightarrow> Inl KeyError)"

text \<open>Lists and dicts cannot be hashed: using one as a dict key raises \<open>TypeError\<close>.\<close>

fun hashable :: "json \<Rightarrow> bool" where
  "hashable (JArr xs) = False"
| "hashable (JObj kvs) = False"
| "hashable j = True"

text \<open>Truth value of a JSON value, as \<open>if v:\<close> tests it.\<close>

fun truthy :: "json \<Rightarrow> bool" where
  "truthy JNull = False"
| "truthy (JBool b) = b"
| "truthy (JInt n) = (n \<noteq> 0)"
| "truthy (JStr s) = (s \<noteq> [])"
| "truthy (JArr xs) = (xs \<noteq> [])"
| "truthy (JObj kvs) = (kvs \<noteq> [])"

text \<open>\<open>sep.join(parts)\<close>\<close>

fun str_join :: "string \<Rightarrow> string list \<Rightarrow> string" where
  "str_join sep [] = []"
| "str_join sep [x] = x"
| "str_join sep (x # y # ys) = x @ sep @ str_join sep (y # ys)"

text \<open>\<open>needle in haystack\<close> for strings\<close>

fun contains :: "'a list \<Rightarrow> 'a list \<Rightarrow> bool" where
  "contains needle [] = (needle = [])"
| "contains needle (c # cs) = (prefix needle (c # cs) \<or> contains needle cs)"

text \<open>\<open>s.endswith(suffix)\<close>\<close>

definition endswith :: "string \<Rightarrow> string \<Rightarrow> bool" where
  "endswith s suf = (length suf \<le> length s \<and> drop (length s - length suf) s = suf)"

text \<open>\<open>str(n)\<close> for a natural number: decimal digits, no leading zero.\<close>

definition digit_char :: "nat \<Rightarrow> char" where
  "digit_char d = char_of (48 + d)"

fun str_nat :: "nat \<Rightarrow> string" where
  "str_nat n = (if n < 10 then [digit_char n] else str_nat (n div 10) @ [digit_char (n mod 10)])"

declare str_nat.simps [simp del]

section \<open>aggregate\_results.py\<close>

subsection \<open>Severities\<close>

type_synonym violation = "(string \<times> json) list"

definition SEVERITY_ORDER :: "(string \<times> int) list" where
  "SEVERITY_ORDER =
     [(''CRITICAL'', 0), (''HIGH'', 1), (''MEDIUM'', 2), (''LOW'', 3),
      (''UNKNOWN'', 4), (''WARNING'', 5), (''NONE'', 6)]"

text \<open>The emoji are written as their UTF-8 bytes: red, yellow, green and white circle.\<close>

definition red_circle :: string where
  "red_circle = [CHR 0xF0, CHR 0x9F, CHR 0x94, CHR 0xB4]"

definition yellow_circle :: string where
  "yellow_circle = [CHR 0xF0, CHR 0x9F, CHR 0x9F, CHR 0xA1]"

definition green_circle :: string where
  "green_circle = [CHR 0xF0, CHR 0x9F, CHR 0x9F, CHR 0xA2]"

definition white_circle :: string where
  "white_circle = [CHR 0xE2, CHR 0x9A, CHR 0xAA]"

definition clipboard :: string where
  "clipboard = [CHR 0xF0, CHR 0x9F, CHR 0x93, CHR 0x8B]"

definition SEVERITY_EMOJI :: "(string \<times> string) list" where
  "SEVERITY_EMOJI =
     [(''CRITICAL'', red_circle), (''HIGH'', red_circle), (''MEDIUM'', yellow_circle),
      (''LOW'', yellow_circle), (''UNKNOWN'', yellow_circle), (''WARNING'', yellow_circle),
      (''NONE'', green_circle)]"

text \<open>
  \<open>SEVERITY_ORDER.get(severity, 999)\<close> for a hashable \<open>severity\<close>: a value that is not
  one of the seven strings (another string, a number, a boolean, null) gets 999.
\<close>

fun severity_priority :: "json \<Rightarrow> int" where
  "severity_priority (JStr s) = py_get SEVERITY_ORDER s 999"
| "severity_priority j = 999"

text \<open>\<open>vuln.get('severity', 'UNKNOWN')\<close>\<close>

definition severity_of :: "violation \<Rightarrow> json" where
  "severity_of vuln = py_get vuln ''severity'' (JStr ''UNKNOWN'')"

text \<open>The loop of \<open>get_worst_severity\<close>, with its two variables as arguments.\<close>

fun worst_loop :: "violation list \<Rightarrow> json \<Rightarrow> int \<Rightarrow> error + json" where
  "worst_loop [] worst_severity worst_priority = Inr worst_severity"
| "worst_loop (vuln # rest) worst_severity worst_priority =
     (let severity = severity_of vuln in
      if \<not> hashable severity then Inl TypeError
      else let priority = severity_priority severity in
        if priority < worst_priority then worst_loop rest severity priority
        else worst_loop rest worst_severity worst_priority)"

definition get_worst_severity :: "violation list \<Rightarrow> error + json" where
  "get_worst_severity vulnerabilities =
     (if vulnerabilities = [] then Inr (JStr ''NONE'')
      else worst_loop vulnerabilities (JStr ''NONE'') (severity_priority (JStr ''NONE'')))"

text \<open>
  \<open>count_by_severity\<close>: \<open>severity in counts\<close> hashes the severity (a list or a dict
  raises), and only a string can be equal to one of the four keys.
\<close>

fun count_loop :: "violation list \<Rightarrow> (string \<times> nat) list \<Rightarrow> error + (string \<times> nat) list" where
  "count_loop [] counts = Inr counts"
| "count_loop (vuln # rest) counts =
     (let severity = severity_of vuln in
      if \<not> hashable severity then Inl TypeError
      else case severity of
        JStr s \<Rightarrow>
          (if map_of counts s \<noteq> None
           then count_loop rest (AList.map_entry s (\<lambda>n. n + 1) counts)
           else count_loop rest counts)
      | _ \<Rightarrow> count_loop rest counts)"

definition count_by_severity :: "violation list \<Rightarrow> error + (string \<times> nat) list" where
  "count_by_severity vulnerabilities =
     count_loop vulnerabilities [(''CRITICAL'', 0), (''HIGH'', 0), (''MEDIUM'', 0), (''LOW'', 0)]"

definition count_fixable :: "violation list \<Rightarrow> nat" where
  "count_fixable vulnerabilities =
     length (filter (\<lambda>vuln. case map_of vuln ''fixed_version'' of
                               None \<Rightarrow> False | Some v \<Rightarrow> truthy v) vulnerabilities)"

definition get_scanners_used :: "(string \<times> 'v) list \<Rightarrow> string" where
  "get_scanners_used scanners =
     (let scanner_names = sort (map fst scanners) in
      if scanner_names \<noteq> [] then str_join '', '' scanner_names else ''None'')"

subsection \<open>The results directory\<close>

text \<open>
  The results directory is the association list of its files, keyed by file name, in
  the order a directory listing yields them. A file holds either a JSON object (kept
  decoded, \<open>Doc\<close>: what \<open>json.dump\<close> wrote is what \<open>json.load\<close> reads back) or
  text that \<open>json.load\<close> rejects (\<open>Corrupt\<close>). File names are single path
  components: the organisation, repository and scanner names have no path separator.
  The registry \<open>SCANNER_MAP\<close> is imported from another module; its keys are a
  parameter here.
\<close>

datatype 'v json_file = Corrupt | Doc "(string \<times> 'v) list"

type_synonym 'v results_dir = "(string \<times> 'v json_file) list"

definition per_repo_file :: "string \<Rightarrow> string \<Rightarrow> string" where
  "per_repo_file org_name repo_name = org_name @ ''-'' @ repo_name @ ''-violations.json''"

definition scanner_file :: "string \<Rightarrow> string" where
  "scanner_file scanner_name = scanner_name @ ''-violations.json''"

definition TEMP_SCANNER_FILE_NAMES :: "string list \<Rightarrow> string list" where
  "TEMP_SCANNER_FILE_NAMES SCANNER_MAP = map scanner_file SCANNER_MAP"

definition json_load :: "'v json_file \<Rightarrow> error + (string \<times> 'v) list" where
  "json_load f = (case f of Corrupt \<Rightarrow> Inl JSONDecodeError | Doc d \<Rightarrow> Inr d)"

text \<open>\<open>for scanner, vulns in scanner_data.items(): aggregated[scanner] = vulns\<close>\<close>

definition merge_items :: "(string \<times> 'v) list \<Rightarrow> (string \<times> 'v) list \<Rightarrow> (string \<times> 'v) list" where
  "merge_items aggregated scanner_data =
     foldl (\<lambda>agg (scanner, vulns). AList.update scanner vulns agg) aggregated scanner_data"

text \<open>The loop over \<open>SCANNER_MAP.keys()\<close> in \<open>aggregate_results\<close>.\<close>

fun merge_scanner_files ::
  "'v results_dir \<Rightarrow> string list \<Rightarrow> (string \<times> 'v) list \<Rightarrow> error + (string \<times> 'v) list" where
  "merge_scanner_files dir [] aggregated = Inr aggregated"
| "merge_scanner_files dir (scanner_name # rest) aggregated =
     (case map_of dir (scanner_file scanner_name) of
        None \<Rightarrow> merge_scanner_files dir rest aggregated
      | Some f \<Rightarrow>
          (case json_load f of
             Inl e \<Rightarrow> Inl e
           | Inr scanner_data \<Rightarrow>
               merge_scanner_files dir rest (merge_items aggregated scanner_data)))"

definition aggregate_results ::
  "string list \<Rightarrow> string \<Rightarrow> string \<Rightarrow> 'v results_dir \<Rightarrow> error + (string \<times> 'v) list" where
  "aggregate_results SCANNER_MAP org_name repo_name dir =
     (case (case map_of dir (per_repo_file org_name repo_name) of
              None \<Rightarrow> Inr []
            | Some f \<Rightarrow> json_load f) of
        Inl e \<Rightarrow> Inl e
      | Inr aggregated \<Rightarrow> merge_scanner_files dir SCANNER_MAP aggregated)"

text \<open>
  \<open>save_aggregated_results\<close>: the write of the per-repository file (creating the
  directory and printing are left out; the values are JSON values, so \<open>default=str\<close>
  never applies), then the loop that unlinks the temporary files.
\<close>

fun remove_temp_files :: "string list \<Rightarrow> 'v results_dir \<Rightarrow> 'v results_dir" where
  "remove_temp_files [] dir = dir"
| "remove_temp_files (scanner_name # rest) dir =
     remove_temp_files rest
       (if map_of dir (scanner_file scanner_name) \<noteq> None
        then AList.delete (scanner_file scanner_name) dir else dir)"

definition save_aggregated_results ::
  "string list \<Rightarrow> string \<Rightarrow> string \<Rightarrow> (string \<times> 'v) list \<Rightarrow> 'v results_dir \<Rightarrow> 'v results_dir" where
  "save_aggregated_results SCANNER_MAP org_name repo_name results dir =
     remove_temp_files SCANNER_MAP
       (AList.update (per_repo_file org_name repo_name) (Doc results) dir)"

subsection \<open>The summary table\<close>

text \<open>\<open>glob('*-*-violations.json')\<close> on a file name\<close>

definition glob_match :: "string \<Rightarrow> bool" where
  "glob_match name =
     (endswith name ''-violations.json'' \<and> CHR ''-'' \<in> set (take (length name - 16) name))"

text \<open>\<open>s.rfind(c)\<close>, and \<open>Path.stem\<close> on a file name: the name without its last suffix.\<close>

definition rfind :: "char \<Rightarrow> string \<Rightarrow> nat option" where
  "rfind c s =
     (if c \<in> set s then Some (length s - 1 - length (takeWhile (\<lambda>x. x \<noteq> c) (rev s))) else None)"

definition stem :: "string \<Rightarrow> string" where
  "stem name =
     (case rfind (CHR ''.'') name of
        None \<Rightarrow> name
      | Some i \<Rightarrow> if 0 < i \<and> i < length name - 1 then take i name else name)"

text \<open>\<open>s.replace(old, '')\<close>: every occurrence of \<open>old\<close>, left to right, is dropped.\<close>

fun str_remove :: "string \<Rightarrow> string \<Rightarrow> string" where
  "str_remove old [] = []"
| "str_remove old (c # cs) =
     (if old \<noteq> [] \<and> prefix old (c # cs)
      then str_remove old (drop (length old) (c # cs))
      else c # str_remove old cs)"

text \<open>\<open>s.split(c, 1)\<close>\<close>

definition split_once :: "char \<Rightarrow> string \<Rightarrow> string list" where
  "split_once c s =
     (if c \<in> set s then [takeWhile (\<lambda>x. x \<noteq> c) s, tl (dropWhile (\<lambda>x. x \<noteq> c) s)] else [s])"

record row =
  row_org_repo :: string
  row_filename :: string
  row_total :: nat
  row_severity_counts :: "(string \<times> nat) list"
  row_fixable :: nat
  row_scanners :: string
  row_status :: string
  row_sort_key :: "int \<times> string"

text \<open>\<open>SEVERITY_EMOJI.get(worst_severity, white circle)\<close>\<close>

fun status_emoji :: "json \<Rightarrow> string" where
  "status_emoji (JStr s) = py_get SEVERITY_EMOJI s white_circle"
| "status_emoji j = white_circle"

text \<open>The body of the loop over the files, from \<open>org_repo = ...\<close> to the row.\<close>

definition make_row :: "string \<Rightarrow> string \<Rightarrow> (string \<times> violation list) list \<Rightarrow> error + row" where
  "make_row org_name repo_name scanners =
     (let org_repo = org_name @ ''/'' @ repo_name;
          all_vulnerabilities = concat (map snd scanners);
          total_findings = length all_vulnerabilities
      in case get_worst_severity all_vulnerabilities of
           Inl e \<Rightarrow> Inl e
         | Inr worst_severity \<Rightarrow>
             (case count_by_severity all_vulnerabilities of
                Inl e \<Rightarrow> Inl e
              | Inr severity_counts \<Rightarrow>
                  Inr \<lparr> row_org_repo = org_repo,
                        row_filename = org_name @ ''-'' @ repo_name @ ''-violations.json'',
                        row_total = total_findings,
                        row_severity_counts = severity_counts,
                        row_fixable = count_fixable all_vulnerabilities,
                        row_scanners = get_scanners_used scanners,
                        row_status = status_emoji worst_severity,
                        row_sort_key = (- severity_priority worst_severity, org_repo) \<rparr>))"

text \<open>The loop over the globbed files; \<open>rows\<close> is the list built so far.\<close>

fun collect_rows ::
  "string list \<Rightarrow> (string \<times> violation list json_file) list \<Rightarrow> row list \<Rightarrow> error + row list" where
  "collect_rows SCANNER_MAP [] rows = Inr rows"
| "collect_rows SCANNER_MAP ((name, f) # rest) rows =
     (if name \<in> set (TEMP_SCANNER_FILE_NAMES SCANNER_MAP) then collect_rows SCANNER_MAP rest rows
      else let filename_parts = split_once (CHR ''-'') (str_remove ''-violations'' (stem name)) in
        if length filename_parts \<noteq> 2 then collect_rows SCANNER_MAP rest rows
        else let org_name = filename_parts ! 0; repo_name = filename_parts ! 1 in
          case json_load f of
            Inl e \<Rightarrow> Inl e
          | Inr scanners \<Rightarrow>
              (case make_row org_name repo_name scanners of
                 Inl e \<Rightarrow> Inl e
               | Inr r \<Rightarrow> collect_rows SCANNER_MAP rest (rows @ [r])))"

text \<open>The rows after \<open>rows.sort(key=...)\<close>: a stable sort, ascending by the key.\<close>

definition summary_rows ::
  "string list \<Rightarrow> violation list results_dir \<Rightarrow> error + row list" where
  "summary_rows SCANNER_MAP dir =
     (case collect_rows SCANNER_MAP (filter (\<lambda>(name, f). glob_match name) dir) [] of
        Inl e \<Rightarrow> Inl e
      | Inr rows \<Rightarrow> Inr (sort_key row_sort_key rows))"

definition table_header :: "string list" where
  "table_header =
     [''# Vulnerability Scan Results'',
      [],
      ''| Project | Results | Total | Critical | High | Medium | Low | Fixable | Scanners | Status |'',
      ''|---------|---------|-------|----------|------|--------|-----|---------|----------|--------|'']"

definition table_line :: "row \<Rightarrow> error + string" where
  "table_line r =
     (let repo_link = ''['' @ row_org_repo r @ ''](https://github.com/'' @ row_org_repo r @ '')'';
          violations_link = ''['' @ clipboard @ ''](results/'' @ row_filename r @ '')''
      in case py_item (row_severity_counts r) ''CRITICAL'' of Inl e \<Rightarrow> Inl e | Inr critical \<Rightarrow>
         (case py_item (row_severity_counts r) ''HIGH'' of Inl e \<Rightarrow> Inl e | Inr high \<Rightarrow>
         (case py_item (row_severity_counts r) ''MEDIUM'' of Inl e \<Rightarrow> Inl e | Inr medium \<Rightarrow>
         (case py_item (row_severity_counts r) ''LOW'' of Inl e \<Rightarrow> Inl e | Inr low \<Rightarrow>
            Inr (''| '' @ repo_link @ '' | '' @ violations_link @ '' | '' @ str_nat (row_total r)
                 @ '' | '' @ str_nat critical @ '' | '' @ str_nat high
                 @ '' | '' @ str_nat medium @ '' | '' @ str_nat low
                 @ '' | '' @ str_nat (row_fixable r) @ '' | '' @ row_scanners r
                 @ '' | '' @ row_status r @ '' |'')))))"

fun table_lines :: "row list \<Rightarrow> string list \<Rightarrow> error + string list" where
  "table_lines [] lines = Inr lines"
| "table_lines (r # rest) lines =
     (case table_line r of Inl e \<Rightarrow> Inl e | Inr l \<Rightarrow> table_lines rest (lines @ [l]))"

definition generate_summary_table ::
  "string list \<Rightarrow> violation list results_dir \<Rightarrow> error + string" where
  "generate_summary_table SCANNER_MAP dir =
     (case summary_rows SCANNER_MAP dir of
        Inl e \<Rightarrow> Inl e
      | Inr rows \<Rightarrow>
          (case table_lines rows table_header of
             Inl e \<Rightarrow> Inl e
           | Inr lines \<Rightarrow> Inr (str_join [CHR 0x0A] lines)))"

section \<open>tool\_detector.py\<close>

subsection \<open>Text\<close>

text \<open>
  In this module a text (the content that \<open>read_text\<close> decodes, a tool name, a
  description) is the list of its Unicode code points: the classes \<open>\s\<close> and \<open>\w\<close> of
  \<open>re\<close>, compiled here without \<open>re.ASCII\<close>, and \<open>str.strip\<close> look at code points.
  The patterns and literals of the source are ASCII; \<open>ustr\<close> turns such a literal into a
  text. For the code points below 128 the two character tables are written out; above,
  they are the tables of the Python runtime (\<open>str.isspace\<close>, \<open>str.isalnum\<close>), a
  parameter \<open>U\<close> of the model. File paths stay strings.
\<close>

type_synonym ustring = "nat list"

definition ustr :: "string \<Rightarrow> ustring" where
  "ustr s = map of_char s"

record unicode_tables =
  uni_space :: "nat \<Rightarrow> bool"
  uni_alnum :: "nat \<Rightarrow> bool"

definition is_space :: "unicode_tables \<Rightarrow> nat \<Rightarrow> bool" where
  "is_space U c =
     (if c < 128 then (9 \<le> c \<and> c \<le> 13) \<or> (28 \<le> c \<and> c \<le> 32) else uni_space U c)"

definition is_word :: "unicode_tables \<Rightarrow> nat \<Rightarrow> bool" where
  "is_word U c =
     (if c < 128
      then (97 \<le> c \<and> c \<le> 122) \<or> (65 \<le> c \<and> c \<le> 90) \<or> (48 \<le> c \<and> c \<le> 57) \<or> c = 95
      else uni_alnum U c)"

definition nl :: nat where
  "nl = 10"

subsection \<open>Regular expressions\<close>

text \<open>
  The fragment of Python's \<open>re\<close> that the detector's patterns are written in: literals,
  one character of a class, a class under \<open>*\<close>, \<open>+\<close> or \<open>*?\<close>, sequence,
  alternation, a greedy optional group and numbered capture groups; \<open>Escaped\<close> is the
  literal that \<open>re.escape\<close> makes of a text. None of the patterns has an anchor, a
  look-around or a back-reference, so a match depends only on the text from its start
  onwards.

  \<open>rmatch U r s g\<close> lists every way \<open>r\<close> can match a prefix of \<open>s\<close>, as the remaining
  text and the captured groups, in the order in which a backtracking matcher tries
  them (a greedy repetition tries the longest run first, a lazy one the shortest, an
  optional group its body before the empty match). The head of the list is the match
  \<open>re\<close> reports at that start.
\<close>

datatype cclass = Space | Word | OneOf "char list" | NoneOf "char list" | AnyChar

datatype regex =
    Lit string
  | Escaped ustring
  | One cclass
  | Star cclass
  | Plus cclass
  | LazyStar cclass
  | Seq regex regex
  | Alt regex regex
  | Opt regex
  | Group nat regex

fun in_class :: "unicode_tables \<Rightarrow> cclass \<Rightarrow> nat \<Rightarrow> bool" where
  "in_class U Space c = is_space U c"
| "in_class U Word c = is_word U c"
| "in_class U (OneOf cs) c = (c \<in> set (ustr cs))"
| "in_class U (NoneOf cs) c = (c \<notin> set (ustr cs))"
| "in_class U AnyChar c = True"

text \<open>The texts left after a run of characters that satisfy \<open>p\<close>: longest run first.\<close>

fun star_greedy :: "(nat \<Rightarrow> bool) \<Rightarrow> ustring \<Rightarrow> ustring list" where
  "star_greedy p [] = [[]]"
| "star_greedy p (c # cs) = (if p c then star_greedy p cs @ [c # cs] else [c # cs])"

text \<open>The same, shortest run first.\<close>

fun star_lazy :: "(nat \<Rightarrow> bool) \<Rightarrow> ustring \<Rightarrow> ustring list" where
  "star_lazy p [] = [[]]"
| "star_lazy p (c # cs) = (c # cs) # (if p c then star_lazy p cs else [])"

type_synonym groups = "nat \<rightharpoonup> ustring"

fun rmatch :: "unicode_tables \<Rightarrow> regex \<Rightarrow> ustring \<Rightarrow> groups \<Rightarrow> (ustring \<times> groups) list" where
  "rmatch U (Lit l) s g = (if prefix (ustr l) s then [(drop (length l) s, g)] else [])"
| "rmatch U (Escaped t) s g = (if prefix t s then [(drop (length t) s, g)] else [])"
| "rmatch U (One cl) s g =
     (case s of [] \<Rightarrow> [] | c # cs \<Rightarrow> if in_class U cl c then [(cs, g)] else [])"
| "rmatch U (Star cl) s g = map (\<lambda>s'. (s', g)) (star_greedy (in_class U cl) s)"
| "rmatch U (Plus cl) s g =
     (case s of [] \<Rightarrow> []
      | c # cs \<Rightarrow>
          if in_class U cl c then map (\<lambda>s'. (s', g)) (star_greedy (in_class U cl) cs) else [])"
| "rmatch U (LazyStar cl) s g = map (\<lambda>s'. (s', g)) (star_lazy (in_class U cl) s)"
| "rmatch U (Seq a b) s g = concat (map (\<lambda>(s', g'). rmatch U b s' g') (rmatch U a s g))"
| "rmatch U (Alt a b) s g = rmatch U a s g @ rmatch U b s g"
| "rmatch U (Opt a) s g = rmatch U a s g @ [(s, g)]"
| "rmatch U (Group i a) s g =
     map (\<lambda>(s', g'). (s', g'(i \<mapsto> take (length s - length s') s))) (rmatch U a s g)"

text \<open>A sequence of patterns.\<close>

fun cat :: "regex list \<Rightarrow> regex" where
  "cat [] = Lit []"
| "cat [r] = r"
| "cat (r # rs) = Seq r (cat rs)"

record rematch =
  m_start :: nat
  m_end :: nat
  m_groups :: groups

text \<open>\<open>match.group(i)\<close>, with \<open>None\<close> (a group that took no part) read as the empty text.\<close>

definition group :: "rematch \<Rightarrow> nat \<Rightarrow> ustring" where
  "group m i = (case m_groups m i of None \<Rightarrow> [] | Some s \<Rightarrow> s)"

text \<open>
  \<open>pattern.search\<close> on the text \<open>s\<close> that starts at offset \<open>pos\<close> of the content: the
  first start, left to right, at which the pattern matches.
\<close>

fun re_search :: "unicode_tables \<Rightarrow> regex \<Rightarrow> nat \<Rightarrow> ustring \<Rightarrow> rematch option" where
  "re_search U r pos [] =
     (case rmatch U r [] Map.empty of
        [] \<Rightarrow> None
      | (s', g) # alts \<Rightarrow> Some \<lparr> m_start = pos, m_end = pos, m_groups = g \<rparr>)"
| "re_search U r pos (c # cs) =
     (case rmatch U r (c # cs) Map.empty of
        [] \<Rightarrow> re_search U r (Suc pos) cs
      | (s', g) # alts \<Rightarrow>
          Some \<lparr> m_start = pos, m_end = pos + (Suc (length cs) - length s'), m_groups = g \<rparr>)"

text \<open>
  \<open>pattern.finditer\<close>: the matches from left to right, each search starting where the
  previous match ended. Every pattern of the detector starts with a literal, so no
  match is empty; the model stops after an empty match.
\<close>

function finditer :: "unicode_tables \<Rightarrow> regex \<Rightarrow> nat \<Rightarrow> ustring \<Rightarrow> rematch list" where
  "finditer U r pos s =
     (case re_search U r pos s of
        None \<Rightarrow> []
      | Some m \<Rightarrow>
          (let n = m_end m - pos
           in if n = 0 \<or> s = [] then [m] else m # finditer U r (pos + n) (drop n s)))"
  by pat_completeness auto
termination
proof (relation "measure (\<lambda>(U, r, pos, s). length s)")
  fix U :: unicode_tables and r :: regex and pos :: nat and s :: ustring
    and m :: rematch and n :: nat
  assume "n = m_end m - pos" and "\<not> (n = 0 \<or> s = [])"
  then have "0 < n" and "0 < length s" by simp_all
  then have "length (drop n s) < length s" by simp
  then show "((U, r, pos + n, drop n s), (U, r, pos, s)) \<in> measure (\<lambda>(U, r, pos, s). length s)"
    by simp
qed simp

declare finditer.simps [simp del]

subsection \<open>The detector\<close>

definition dq :: char where
  "dq = CHR 0x22"

definition sq :: char where
  "sq = CHR 0x27"

record MCPTool =
  name :: ustring
  file_path :: string
  description :: ustring
  line_number :: nat

text \<open>\<open>(?:async\s+)?\<close> and the quoted name \<open>["']([^"']+)["']\<close> with its group number.\<close>

definition opt_async :: regex where
  "opt_async = Opt (Seq (Lit ''async'') (Plus Space))"

definition quoted :: "nat \<Rightarrow> regex" where
  "quoted i = cat [One (OneOf [dq, sq]), Group i (Plus (NoneOf [dq, sq])), One (OneOf [dq, sq])]"

definition decorator_tail :: regex where
  "decorator_tail =
     cat [Lit ''('', Star Space, Opt (Seq (Lit ''name='') (quoted 1)), Star Space, Lit '')'',
          Star Space, opt_async, Lit ''def'', Plus Space, Group 2 (Plus Word)]"

definition PYTHON_TOOL_PATTERNS :: "regex list" where
  "PYTHON_TOOL_PATTERNS =
     [cat [Lit ''@'', Alt (Lit ''mcp'') (Lit ''server''), Lit ''.tool'', decorator_tail],
      cat [Lit ''@tool'', decorator_tail]]"

definition docstring_pattern :: regex where
  "docstring_pattern =
     cat [Lit ''def'', Plus Space, Group 1 (Plus Word), Star Space,
          Lit ''('', Star (NoneOf '')''), Lit '')'', Star Space,
          Opt (Seq (Lit ''->'') (LazyStar AnyChar)), Star Space, Lit '':'', Star Space,
          Lit [dq, dq, dq], Group 2 (Plus (NoneOf [dq])), Lit [dq, dq, dq]]"

definition opt_function :: regex where
  "opt_function = Opt (Seq (Lit ''function'') (Plus Space))"

definition TYPESCRIPT_TOOL_PATTERNS :: "regex list" where
  "TYPESCRIPT_TOOL_PATTERNS =
     [cat [Lit ''@Tool({'', Star (NoneOf ''}''), Lit ''})'', Star Space,
           opt_async, opt_function, Group 1 (Plus Word)],
      cat [Lit ''setRequestHandler'', Star Space, Lit ''('', Star Space,
           Lit ''ListToolsRequestSchema'', Star (NoneOf '')''), Lit '')'', Star Space,
           LazyStar AnyChar, Lit ''name:'', Star Space, quoted 1]]"

text \<open>The pattern built for one tool name; \<open>re.escape\<close> makes the name a literal.\<close>

definition decorator_pattern :: "ustring \<Rightarrow> regex" where
  "decorator_pattern tool_name =
     cat [Lit ''@Tool({'', Star (NoneOf ''}''), Lit ''description:'', Star Space, quoted 1,
          Star (NoneOf ''}''), Lit ''})'', Star Space, opt_async, opt_function,
          Escaped tool_name]"

text \<open>\<open>s.strip()\<close> and \<open>s.split('\n')[0]\<close>\<close>

definition strip :: "unicode_tables \<Rightarrow> ustring \<Rightarrow> ustring" where
  "strip U s = rev (dropWhile (is_space U) (rev (dropWhile (is_space U) s)))"

definition first_line :: "ustring \<Rightarrow> ustring" where
  "first_line s = takeWhile (\<lambda>c. c \<noteq> nl) s"

text \<open>\<open>content[:start].count('\n') + 1\<close>\<close>

definition line_of :: "ustring \<Rightarrow> nat \<Rightarrow> nat" where
  "line_of content start = length (filter (\<lambda>c. c = nl) (take start content)) + 1"

text \<open>
  A file of the repository, as \<open>read_text\<close> finds it: its text, or a path that cannot
  be read (no permission, a directory). Undecodable bytes are ignored by the reads of
  the detection pass, so decoding never fails there.
\<close>

datatype source_file = Unreadable | Text ustring

text \<open>
  The repository: the string of its root path, and its files by path relative to the
  root, in the order the directory walk yields them.
\<close>

record repo =
  repo_path :: string
  files :: "(string \<times> source_file) list"

text \<open>The dictionary \<open>docstrings\<close>: function name to the first line of its docstring.\<close>

definition collect_docstrings :: "unicode_tables \<Rightarrow> ustring \<Rightarrow> (ustring \<times> ustring) list" where
  "collect_docstrings U content =
     foldl (\<lambda>docstrings m.
              AList.update (group m 1) (first_line (strip U (group m 2))) docstrings)
       [] (finditer U docstring_pattern 0 content)"

text \<open>The record appended for one match of a Python pattern.\<close>

definition python_tool :: "string \<Rightarrow> ustring \<Rightarrow> (ustring \<times> ustring) list \<Rightarrow> rematch \<Rightarrow> MCPTool" where
  "python_tool relative_path content docstrings m =
     (let tool_name = (if group m 1 \<noteq> [] then group m 1 else group m 2);
          func_name = group m 2
      in \<lparr> name = tool_name, file_path = relative_path,
            description = py_get docstrings func_name [],
            line_number = line_of content (m_start m) \<rparr>)"

text \<open>
  \<open>_detect_python_tools\<close>: \<open>tools\<close> is \<open>self.tools\<close> before the call, the result is
  \<open>self.tools\<close> after it. The read is the first statement of the \<open>try\<close> block, and
  nothing after it can raise.
\<close>

definition detect_python_tools ::
  "unicode_tables \<Rightarrow> string \<Rightarrow> source_file \<Rightarrow> MCPTool list \<Rightarrow> MCPTool list" where
  "detect_python_tools U relative_path f tools =
     (case f of
        Unreadable \<Rightarrow> tools
      | Text content \<Rightarrow>
          (let docstrings = collect_docstrings U content
           in tools @ concat (map (\<lambda>pattern. map (python_tool relative_path content docstrings)
                                                (finditer U pattern 0 content))
                                PYTHON_TOOL_PATTERNS)))"

text \<open>The description looked up for a tool name: \<open>re.search\<close> over the whole content.\<close>

definition decorator_description :: "unicode_tables \<Rightarrow> ustring \<Rightarrow> ustring \<Rightarrow> ustring" where
  "decorator_description U content tool_name =
     (case re_search U (decorator_pattern tool_name) 0 content of
        None \<Rightarrow> []
      | Some decorator_match \<Rightarrow> group decorator_match 1)"

definition typescript_tool :: "unicode_tables \<Rightarrow> string \<Rightarrow> ustring \<Rightarrow> rematch \<Rightarrow> MCPTool" where
  "typescript_tool U relative_path content m =
     (let tool_name = group m 1
      in \<lparr> name = tool_name, file_path = relative_path,
            description = decorator_description U content tool_name,
            line_number = line_of content (m_start m) \<rparr>)"

definition detect_typescript_tools ::
  "unicode_tables \<Rightarrow> string \<Rightarrow> source_file \<Rightarrow> MCPTool list \<Rightarrow> MCPTool list" where
  "detect_typescript_tools U relative_path f tools =
     (case f of
        Unreadable \<Rightarrow> tools
      | Text content \<Rightarrow>
          tools @ concat (map (\<lambda>pattern. map (typescript_tool U relative_path content)
                                           (finditer U pattern 0 content))
                           TYPESCRIPT_TOOL_PATTERNS))"

text \<open>
  \<open>_is_mcp_server\<close>. The reads of the three Python manifests are outside any \<open>try\<close>:
  a manifest that exists and cannot be read raises. The whole inspection of
  \<open>package.json\<close> is inside one: whatever it raises counts as no reference.
  \<open>json_loads\<close> is the library's decoder (\<open>None\<close> when it rejects the text).
\<close>

fun check_python_deps :: "(string \<times> source_file) list \<Rightarrow> string list \<Rightarrow> error + bool" where
  "check_python_deps fs [] = Inr False"
| "check_python_deps fs (dep_file # rest) =
     (case map_of fs dep_file of
        None \<Rightarrow> check_python_deps fs rest
      | Some Unreadable \<Rightarrow> Inl OSError
      | Some (Text content) \<Rightarrow>
          if contains (ustr ''mcp'') content \<or> contains (ustr ''fastmcp'') content then Inr True
          else check_python_deps fs rest)"

definition package_json_mentions_mcp :: "json \<Rightarrow> bool" where
  "package_json_mentions_mcp data =
     (case data of
        JObj kvs \<Rightarrow>
          (case (py_get kvs ''dependencies'' (JObj []), py_get kvs ''devDependencies'' (JObj [])) of
             (JObj deps, JObj dev_deps) \<Rightarrow>
               (\<exists>dep \<in> set (map fst deps @ map fst dev_deps).
                   contains ''modelcontextprotocol'' dep \<or> contains ''mcp'' dep)
           | _ \<Rightarrow> False)
      | _ \<Rightarrow> False)"

definition is_mcp_server :: "(ustring \<Rightarrow> json option) \<Rightarrow> repo \<Rightarrow> error + bool" where
  "is_mcp_server json_loads r =
     (case check_python_deps (files r) [''requirements.txt'', ''pyproject.toml'', ''Pipfile''] of
        Inl e \<Rightarrow> Inl e
      | Inr True \<Rightarrow> Inr True
      | Inr False \<Rightarrow>
          (case map_of (files r) ''package.json'' of
             Some (Text content) \<Rightarrow>
               (case json_loads content of
                  Some data \<Rightarrow> Inr (package_json_mentions_mcp data)
                | None \<Rightarrow> Inr False)
           | _ \<Rightarrow> Inr False))"

text \<open>The two loops of \<open>detect_tools\<close> over the files that \<open>rglob\<close> yields.\<close>

definition rglob :: "string \<Rightarrow> repo \<Rightarrow> (string \<times> source_file) list" where
  "rglob ext r = filter (\<lambda>(path, f). endswith path ext) (files r)"

definition pattern_detection :: "unicode_tables \<Rightarrow> repo \<Rightarrow> MCPTool list" where
  "pattern_detection U r =
     (let python_files = rglob ''.py'' r;
          tools = foldl (\<lambda>tools (path, f). detect_python_tools U path f tools) [] python_files;
          ts_files = rglob ''.ts'' r @ rglob ''.tsx'' r
      in foldl (\<lambda>tools (path, f). detect_typescript_tools U path f tools) tools ts_files)"

definition detect_tools ::
  "unicode_tables \<Rightarrow> (ustring \<Rightarrow> json option) \<Rightarrow> repo \<Rightarrow> error + MCPTool list" where
  "detect_tools U json_loads r =
     (let tools = pattern_detection U r
      in if tools = [] then
           (case is_mcp_server json_loads r of
              Inl e \<Rightarrow> Inl e
            | Inr True \<Rightarrow>
                Inr [\<lparr> name = ustr ''unknown'', file_path = repo_path r,
                        description = ustr ''MCP server with undetected tools'',
                        line_number = 0 \<rparr>]
            | Inr False \<Rightarrow> Inr tools)
         else Inr tools)"

subsection \<open>Decorators with a description\<close>

text \<open>
  The texts that \<open>decorator_pattern tool_name\<close> matches, spelled out; the two are
  proved equal below (\<open>decorator_pattern_sound\<close>, \<open>decorator_pattern_complete\<close>).
  \<open>described_decorator U s tool_name d rest\<close>: the text \<open>s\<close> starts with
  \<open>@Tool({\<close>, an object literal without \<open>}\<close> that holds \<open>description:\<close>, spaces
  and the quoted text \<open>d\<close>, then \<open>})\<close>, spaces, an optional \<open>async\<close> and an
  optional \<open>function\<close>, each with its spaces, and \<open>tool_name\<close>; \<open>rest\<close> is what
  follows. The code points 34, 39 and 125 are the two quotes and \<open>}\<close>.
\<close>

definition keyword_part :: "unicode_tables \<Rightarrow> string \<Rightarrow> ustring \<Rightarrow> bool" where
  "keyword_part U kw w \<longleftrightarrow>
     w = [] \<or> (\<exists>sp. w = ustr kw @ sp \<and> sp \<noteq> [] \<and> (\<forall>c\<in>set sp. is_space U c))"

definition described_decorator ::
  "unicode_tables \<Rightarrow> ustring \<Rightarrow> ustring \<Rightarrow> ustring \<Rightarrow> ustring \<Rightarrow> bool" where
  "described_decorator U s tool_name d rest \<longleftrightarrow>
     (\<exists>b1 sp1 q1 q2 b2 sp2 a f.
        s = ustr ''@Tool({'' @ b1 @ ustr ''description:'' @ sp1 @ q1 # d @ q2 # b2
              @ ustr ''})'' @ sp2 @ a @ f @ tool_name @ rest
        \<and> 125 \<notin> set b1 \<and> 125 \<notin> set b2
        \<and> (\<forall>c\<in>set sp1. is_space U c) \<and> (\<forall>c\<in>set sp2. is_space U c)
        \<and> q1 \<in> {34, 39} \<and> q2 \<in> {34, 39}
        \<and> d \<noteq> [] \<and> 34 \<notin> set d \<and> 39 \<notin> set d
        \<and> keyword_part U ''async'' a \<and> keyword_part U ''function'' f)"

subsection \<open>A reference to MCP, in the words of the specification\<close>

text \<open>
  The specification describes the fallback by what the manifests say: a dependency
  manifest refers to MCP by a substring match in the text of a Python dependency file,
  or by a key-name match in the dependency tables of \<open>package.json\<close>. This is that
  description, written without the code's loops; \<open>is_mcp_server\<close> is compared with
  it below.
\<close>

definition mentions :: "'a list \<Rightarrow> 'a list \<Rightarrow> bool" where
  "mentions needle s \<longleftrightarrow> (\<exists>pre post. s = pre @ needle @ post)"

definition spec_references_mcp :: "(ustring \<Rightarrow> json option) \<Rightarrow> repo \<Rightarrow> bool" where
  "spec_references_mcp json_loads r \<longleftrightarrow>
     (\<exists>dep_file content.
        dep_file \<in> {''requirements.txt'', ''pyproject.toml'', ''Pipfile''}
        \<and> map_of (files r) dep_file = Some (Text content)
        \<and> mentions (ustr ''mcp'') content)
     \<or> (\<exists>content kvs deps dev_deps dep.
          map_of (files r) ''package.json'' = Some (Text content)
          \<and> json_loads content = Some (JObj kvs)
          \<and> py_get kvs ''dependencies'' (JObj []) = JObj deps
          \<and> py_get kvs ''devDependencies'' (JObj []) = JObj dev_deps
          \<and> dep \<in> fst ` set (deps @ dev_deps)
          \<and> (mentions ''modelcontextprotocol'' dep \<or> mentions ''mcp'' dep))"

section \<open>Properties of the aggregation module\<close>

subsection \<open>The worst severity\<close>

lemma priority_NONE: "severity_priority (JStr ''NONE'') = 6"
  by (simp add: py_get_def SEVERITY_ORDER_def)

lemma severity_priority_nonneg: "0 \<le> severity_priority j"
  by (cases j) (auto simp: py_get_def SEVERITY_ORDER_def)

lemma severity_priority_unrecognised:
  "s \<notin> set (map fst SEVERITY_ORDER) \<Longrightarrow> severity_priority (JStr s) = 999"
  by (simp add: py_get_def map_of_eq_None_iff [THEN iffD2])

lemma worst_loop_least:
  assumes "\<forall>v\<in>set vs. hashable (severity_of v)"
  shows "\<exists>w. worst_loop vs ws (severity_priority ws) = Inr w
           \<and> (w = ws \<or> w \<in> severity_of ` set vs)
           \<and> severity_priority w \<le> severity_priority ws
           \<and> (\<forall>v\<in>set vs. severity_priority w \<le> severity_priority (severity_of v))"
  using assms
proof (induction vs arbitrary: ws)
  case Nil
  then show ?case by simp
next
  case (Cons v vs)
  have h: "\<forall>v\<in>set vs. hashable (severity_of v)" using Cons.prems by simp
  show ?case
  proof (cases "severity_priority (severity_of v) < severity_priority ws")
    case True
    from Cons.IH [OF h, of "severity_of v"] obtain w where
      w: "worst_loop vs (severity_of v) (severity_priority (severity_of v)) = Inr w"
         "w = severity_of v \<or> w \<in> severity_of ` set vs"
         "severity_priority w \<le> severity_priority (severity_of v)"
         "\<forall>v\<in>set vs. severity_priority w \<le> severity_priority (severity_of v)"
      by blast
    with True Cons.prems show ?thesis by (auto simp: Let_def)
  next
    case False
    from Cons.IH [OF h, of ws] obtain w where
      w: "worst_loop vs ws (severity_priority ws) = Inr w"
         "w = ws \<or> w \<in> severity_of ` set vs"
         "severity_priority w \<le> severity_priority ws"
         "\<forall>v\<in>set vs. severity_priority w \<le> severity_priority (severity_of v)"
      by blast
    with False Cons.prems show ?thesis by (auto simp: Let_def)
  qed
qed

lemma get_worst_severity_least:
  assumes "\<forall>v\<in>set vs. hashable (severity_of v)"
  shows "\<exists>w. get_worst_severity vs = Inr w
           \<and> (w = JStr ''NONE'' \<or> w \<in> severity_of ` set vs)
           \<and> severity_priority w \<le> 6
           \<and> (\<forall>v\<in>set vs. severity_priority w \<le> severity_priority (severity_of v))"
proof (cases "vs = []")
  case True
  then show ?thesis using priority_NONE by (simp add: get_worst_severity_def)
next
  case False
  from worst_loop_least [OF assms, of "JStr ''NONE''"] False show ?thesis
    unfolding get_worst_severity_def priority_NONE by auto
qed

lemma worst_loop_hashable:
  "worst_loop vs ws wp = Inr w \<Longrightarrow> \<forall>v\<in>set vs. hashable (severity_of v)"
  by (induction vs arbitrary: ws wp) (auto simp: Let_def split: if_splits)

lemma get_worst_severity_hashable:
  "get_worst_severity vs = Inr w \<Longrightarrow> \<forall>v\<in>set vs. hashable (severity_of v)"
  by (auto simp: get_worst_severity_def dest: worst_loop_hashable split: if_splits)

text \<open>
  Claim C1, as stated, fails: a list whose only severity is not one of the seven
  recognised strings yields \<open>NONE\<close>, a value that is not present in the list.
\<close>

theorem worst_severity_unrecognised_counterexample:
  "get_worst_severity [ [(''severity'', JStr ''BOGUS'')] ] = Inr (JStr ''NONE'')
   \<and> JStr ''NONE'' \<notin> set (map severity_of [ [(''severity'', JStr ''BOGUS'')] ])"
  by (simp add: get_worst_severity_def severity_of_def py_get_def SEVERITY_ORDER_def)

text \<open>
  Claim C1 (amended). For every list of violation records whose severities (the default
  \<open>UNKNOWN\<close> where the key is absent) can be hashed, \<open>get_worst_severity\<close> returns a
  value of least rank among \<open>NONE\<close> and the severities present in the list, under the
  fixed order CRITICAL (0), HIGH, MEDIUM, LOW, UNKNOWN, WARNING, NONE (6). A value
  outside this order has rank 999, after \<open>NONE\<close>, so it is never returned: the empty
  list, and a list that holds only \<open>NONE\<close> or unrecognised severities, yield \<open>NONE\<close>.
\<close>

theorem worst_severity_least_rank:
  assumes "\<forall>v\<in>set vs. hashable (severity_of v)"
  shows "(\<exists>w. get_worst_severity vs = Inr w
           \<and> (w = JStr ''NONE'' \<or> w \<in> severity_of ` set vs)
           \<and> severity_priority w \<le> 6
           \<and> (\<forall>v\<in>set vs. severity_priority w \<le> severity_priority (severity_of v)))
       \<and> map (\<lambda>s. severity_priority (JStr s))
            [''CRITICAL'', ''HIGH'', ''MEDIUM'', ''LOW'', ''UNKNOWN'', ''WARNING'', ''NONE'']
          = [0, 1, 2, 3, 4, 5, 6]
       \<and> (\<forall>s. s \<notin> set [''CRITICAL'', ''HIGH'', ''MEDIUM'', ''LOW'', ''UNKNOWN'', ''WARNING'', ''NONE'']
              \<longrightarrow> severity_priority (JStr s) = 999)
       \<and> get_worst_severity [] = Inr (JStr ''NONE'')"
proof -
  have "map (\<lambda>s. severity_priority (JStr s))
            [''CRITICAL'', ''HIGH'', ''MEDIUM'', ''LOW'', ''UNKNOWN'', ''WARNING'', ''NONE'']
          = [0, 1, 2, 3, 4, 5, 6]"
    by (simp add: py_get_def SEVERITY_ORDER_def)
  moreover have "\<forall>s. s \<notin> set [''CRITICAL'', ''HIGH'', ''MEDIUM'', ''LOW'', ''UNKNOWN'', ''WARNING'', ''NONE'']
              \<longrightarrow> severity_priority (JStr s) = 999"
    using severity_priority_unrecognised by (simp add: SEVERITY_ORDER_def)
  moreover have "get_worst_severity [] = Inr (JStr ''NONE'')"
    by (simp add: get_worst_severity_def)
  ultimately show ?thesis using get_worst_severity_least [OF assms] by blast
qed

theorem worst_severity_least_rank_witness:
  "get_worst_severity
     [ [(''severity'', JStr ''LOW'')], [(''severity'', JStr ''HIGH'')],
       [(''severity'', JStr ''BOGUS'')], [(''id'', JInt 3)] ]
   = Inr (JStr ''HIGH'')"
proof -
  let ?vs = "[ [(''severity'', JStr ''LOW'')], [(''severity'', JStr ''HIGH'')],
               [(''severity'', JStr ''BOGUS'')], [(''id'', JInt 3)] ]"
  have h: "\<forall>v\<in>set ?vs. hashable (severity_of v)"
    by (simp add: severity_of_def py_get_def)
  from worst_severity_least_rank [OF h] show ?thesis
    by (simp add: get_worst_severity_def severity_of_def py_get_def SEVERITY_ORDER_def)
qed

subsection \<open>Records without a severity\<close>

lemma severity_of_missing: "map_of v ''severity'' = None \<Longrightarrow> severity_of v = JStr ''UNKNOWN''"
  by (simp add: severity_of_def py_get_def)

lemma severity_of_filled: "severity_of ((''severity'', JStr ''UNKNOWN'') # v) = JStr ''UNKNOWN''"
  by (simp add: severity_of_def py_get_def)

lemma worst_loop_cong:
  "map severity_of vs = map severity_of vs' \<Longrightarrow> worst_loop vs ws wp = worst_loop vs' ws wp"
proof (induction vs arbitrary: vs' ws wp)
  case Nil
  then show ?case by simp
next
  case (Cons v vs)
  then obtain v' us where vs': "vs' = v' # us" by (cases vs') auto
  with Cons.prems have "severity_of v = severity_of v'" "map severity_of vs = map severity_of us"
    by simp_all
  with Cons.IH [of us] vs' show ?case by (simp add: Let_def)
qed

lemma count_loop_cong:
  "map severity_of vs = map severity_of vs' \<Longrightarrow> count_loop vs c = count_loop vs' c"
proof (induction vs arbitrary: vs' c)
  case Nil
  then show ?case by simp
next
  case (Cons v vs)
  then obtain v' us where vs': "vs' = v' # us" by (cases vs') auto
  with Cons.prems have "severity_of v = severity_of v'" "map severity_of vs = map severity_of us"
    by simp_all
  with Cons.IH [of us] vs' show ?case by (simp add: Let_def split: json.splits)
qed

lemma map_of_map_entry_other:
  "map_of c k = None \<Longrightarrow> map_of (AList.map_entry s f c) k = None"
  by (auto simp: AList.map_of_map_entry split: option.splits)

lemma count_loop_skip_unknown:
  assumes "\<forall>v\<in>set vs. severity_of v = JStr ''UNKNOWN''" and "map_of c ''UNKNOWN'' = None"
  shows "count_loop (vs @ ys) c = count_loop ys c"
  using assms by (induction vs) (simp_all add: Let_def)

lemma count_loop_skip_middle:
  assumes "\<forall>v\<in>set vs. severity_of v = JStr ''UNKNOWN''" and "map_of c ''UNKNOWN'' = None"
  shows "count_loop (xs @ vs @ ys) c = count_loop (xs @ ys) c"
  using assms(2)
proof (induction xs arbitrary: c)
  case Nil
  with assms(1) show ?case by (simp add: count_loop_skip_unknown)
next
  case (Cons x xs)
  then show ?case
    by (auto simp: Let_def map_of_map_entry_other split: json.splits)
qed

lemma worst_loop_all_unknown:
  assumes "\<forall>v\<in>set vs. severity_of v = JStr ''UNKNOWN''"
  shows "worst_loop vs (JStr ''UNKNOWN'') 4 = Inr (JStr ''UNKNOWN'')"
  using assms by (induction vs) (simp_all add: Let_def py_get_def SEVERITY_ORDER_def)

text \<open>
  Claim C10. A violation record without a \<open>severity\<close> key is treated by
  \<open>get_worst_severity\<close> and by \<open>count_by_severity\<close> exactly as a record whose severity
  is \<open>UNKNOWN\<close>: filling the key in changes neither result. Such records are never
  counted in the CRITICAL, HIGH, MEDIUM or LOW columns (dropping them from any place of a
  list leaves the counts as they are, and alone they count as four zeros), and a
  non-empty list of such records has worst severity \<open>UNKNOWN\<close>, not \<open>NONE\<close>.
\<close>

theorem missing_severity_counts_as_UNKNOWN:
  assumes "\<forall>v\<in>set vs. map_of v ''severity'' = None"
  shows "get_worst_severity (xs @ vs @ ys)
           = get_worst_severity (xs @ map (\<lambda>v. (''severity'', JStr ''UNKNOWN'') # v) vs @ ys)
       \<and> count_by_severity (xs @ vs @ ys)
           = count_by_severity (xs @ map (\<lambda>v. (''severity'', JStr ''UNKNOWN'') # v) vs @ ys)
       \<and> count_by_severity (xs @ vs @ ys) = count_by_severity (xs @ ys)
       \<and> count_by_severity vs
           = Inr [(''CRITICAL'', 0), (''HIGH'', 0), (''MEDIUM'', 0), (''LOW'', 0)]
       \<and> get_worst_severity vs = Inr (JStr (if vs = [] then ''NONE'' else ''UNKNOWN''))"
proof -
  let ?fill = "\<lambda>v. (''severity'', JStr ''UNKNOWN'') # v"
  have unk: "\<forall>v\<in>set vs. severity_of v = JStr ''UNKNOWN''"
    using assms by (simp add: severity_of_missing)
  have "map severity_of vs = map severity_of (map ?fill vs)"
    using unk by (simp add: severity_of_filled)
  then have same: "map severity_of (xs @ vs @ ys) = map severity_of (xs @ map ?fill vs @ ys)"
    by simp
  have a: "get_worst_severity (xs @ vs @ ys) = get_worst_severity (xs @ map ?fill vs @ ys)"
    using worst_loop_cong [OF same] by (simp add: get_worst_severity_def)
  have b: "count_by_severity (xs @ vs @ ys) = count_by_severity (xs @ map ?fill vs @ ys)"
    using count_loop_cong [OF same] by (simp add: count_by_severity_def)
  have c: "count_by_severity (xs @ vs @ ys) = count_by_severity (xs @ ys)"
    unfolding count_by_severity_def by (rule count_loop_skip_middle [OF unk]) simp
  have d: "count_by_severity vs = Inr [(''CRITICAL'', 0), (''HIGH'', 0), (''MEDIUM'', 0), (''LOW'', 0)]"
    using count_loop_skip_unknown [OF unk, of "[(''CRITICAL'', 0), (''HIGH'', 0), (''MEDIUM'', 0), (''LOW'', 0)]" "[]"]
    by (simp add: count_by_severity_def)
  have e: "get_worst_severity vs = Inr (JStr (if vs = [] then ''NONE'' else ''UNKNOWN''))"
  proof (cases vs)
    case Nil
    then show ?thesis by (simp add: get_worst_severity_def)
  next
    case (Cons v us)
    with unk have "severity_of v = JStr ''UNKNOWN''" "\<forall>v\<in>set us. severity_of v = JStr ''UNKNOWN''"
      by simp_all
    with Cons worst_loop_all_unknown [of us] show ?thesis
      by (simp add: get_worst_severity_def Let_def py_get_def SEVERITY_ORDER_def)
  qed
  from a b c d e show ?thesis by blast
qed

theorem missing_severity_counts_as_UNKNOWN_witness:
  "get_worst_severity [ [(''id'', JInt 1)], [(''id'', JInt 2)] ] = Inr (JStr ''UNKNOWN'')
   \<and> count_by_severity [ [(''severity'', JStr ''HIGH'')], [(''id'', JInt 1)], [(''id'', JInt 2)] ]
      = count_by_severity [ [(''severity'', JStr ''HIGH'')] ]"
  using missing_severity_counts_as_UNKNOWN
    [of "[ [(''id'', JInt 1)], [(''id'', JInt 2)] ]" "[ [(''severity'', JStr ''HIGH'')] ]" "[]"]
  by (simp add: count_by_severity_def severity_of_def py_get_def)

subsection \<open>Merging scanner files\<close>

lemma merge_items_Nil: "merge_items a [] = a"
  by (simp add: merge_items_def)

lemma merge_items_Cons: "merge_items a ((k, v) # d) = merge_items (AList.update k v a) d"
  by (simp add: merge_items_def)

lemma merge_items_keeps:
  "k \<notin> fst ` set d \<Longrightarrow> map_of (merge_items a d) k = map_of a k"
proof (induction d arbitrary: a)
  case Nil
  then show ?case by (simp add: merge_items_Nil)
next
  case (Cons p d)
  obtain k' v' where p: "p = (k', v')" by (cases p)
  with Cons show ?case by (simp add: merge_items_Cons update_conv')
qed

lemma merge_items_overwrites:
  "distinct (map fst d) \<Longrightarrow> map_of d k = Some v \<Longrightarrow> map_of (merge_items a d) k = Some v"
proof (induction d arbitrary: a)
  case Nil
  then show ?case by simp
next
  case (Cons p d)
  obtain k' v' where p: "p = (k', v')" by (cases p)
  show ?case
  proof (cases "k' = k")
    case True
    with Cons.prems p have "v' = v" "k \<notin> fst ` set d" by auto
    with p True show ?thesis
      by (simp add: merge_items_Cons merge_items_keeps update_conv')
  next
    case False
    with Cons p show ?thesis by (simp add: merge_items_Cons)
  qed
qed

lemma merge_items_keys: "fst ` set (merge_items a d) = fst ` set a \<union> fst ` set d"
proof (induction d arbitrary: a)
  case Nil
  then show ?case by (simp add: merge_items_Nil)
next
  case (Cons p d)
  obtain k' v' where p: "p = (k', v')" by (cases p)
  with Cons show ?case by (auto simp: merge_items_Cons dom_update)
qed

lemma merge_items_distinct:
  "distinct (map fst a) \<Longrightarrow> distinct (map fst (merge_items a d))"
proof (induction d arbitrary: a)
  case Nil
  then show ?case by (simp add: merge_items_Nil)
next
  case (Cons p d)
  obtain k' v' where p: "p = (k', v')" by (cases p)
  with Cons show ?case by (simp add: merge_items_Cons distinct_update)
qed

text \<open>Two assignments commute as soon as one of the keys is already present.\<close>

lemma update_commute:
  "k \<noteq> k' \<Longrightarrow> k \<in> fst ` set al \<Longrightarrow>
   AList.update k v (AList.update k' v' al) = AList.update k' v' (AList.update k v al)"
proof (induction al)
  case Nil
  then show ?case by simp
next
  case (Cons p al)
  show ?case
  proof (cases "fst p = k")
    case True
    with Cons.prems show ?thesis by (cases p) auto
  next
    case False
    with Cons show ?thesis by (cases p) auto
  qed
qed

lemma update_present: "k \<in> fst ` set (AList.update k v al)"
  by (simp add: dom_update)

lemma merge_items_update_unwritten:
  "k \<notin> fst ` set d \<Longrightarrow> k \<in> fst ` set a \<Longrightarrow>
   AList.update k v (merge_items a d) = merge_items (AList.update k v a) d"
proof (induction d arbitrary: a)
  case Nil
  then show ?case by (simp add: merge_items_Nil)
next
  case (Cons p d)
  obtain k' v' where p: "p = (k', v')" by (cases p)
  with Cons.prems have ne: "k \<noteq> k'" and nin: "k \<notin> fst ` set d" by auto
  have "k \<in> fst ` set (AList.update k' v' a)" using Cons.prems(2) by (simp add: dom_update)
  moreover have sw: "AList.update k v (AList.update k' v' a) = AList.update k' v' (AList.update k v a)"
    by (rule update_commute [OF ne Cons.prems(2)])
  ultimately show ?case using Cons.IH [OF nin] p
    by (simp add: merge_items_Cons)
qed

lemma merge_items_update_rewritten:
  "k \<in> fst ` set d \<Longrightarrow> k \<in> fst ` set a \<Longrightarrow>
   merge_items (AList.update k v a) d = merge_items a d"
proof (induction d arbitrary: a)
  case Nil
  then show ?case by simp
next
  case (Cons p d)
  obtain k' v' where p: "p = (k', v')" by (cases p)
  show ?case
  proof (cases "k' = k")
    case True
    with p show ?thesis by (simp add: merge_items_Cons)
  next
    case False
    with Cons.prems p have kin: "k \<in> fst ` set d" by auto
    have pres: "k \<in> fst ` set (AList.update k' v' a)" using Cons.prems(2) by (simp add: dom_update)
    have "AList.update k' v' (AList.update k v a) = AList.update k v (AList.update k' v' a)"
      using False Cons.prems(2) update_commute [of k k' a v v'] by auto
    with Cons.IH [OF kin pres] p show ?thesis by (simp add: merge_items_Cons)
  qed
qed

lemma update_same: "map_of al k = Some v \<Longrightarrow> AList.update k v al = al"
  by (induction al) auto

lemma merge_items_idem: "merge_items (merge_items a d) d = merge_items a d"
proof (induction d arbitrary: a)
  case Nil
  then show ?case by (simp add: merge_items_Nil)
next
  case (Cons p d)
  obtain k v where p: "p = (k, v)" by (cases p)
  let ?b = "AList.update k v a"
  have kb: "k \<in> fst ` set ?b" by (rule update_present)
  have kr: "k \<in> fst ` set (merge_items ?b d)" using kb by (simp add: merge_items_keys)
  have "merge_items (AList.update k v (merge_items ?b d)) d = merge_items ?b d"
  proof (cases "k \<in> fst ` set d")
    case True
    from merge_items_update_rewritten [OF True kr] Cons.IH [of ?b] show ?thesis by simp
  next
    case False
    have "AList.update k v (merge_items ?b d) = merge_items (AList.update k v ?b) d"
      by (rule merge_items_update_unwritten [OF False kb])
    then have "AList.update k v (merge_items ?b d) = merge_items ?b d" by simp
    with Cons.IH [of ?b] show ?thesis by simp
  qed
  with p show ?case by (simp add: merge_items_Cons)
qed

lemma merge_items_append: "merge_items a (d @ e) = merge_items (merge_items a d) e"
  by (simp add: merge_items_def)

lemma merge_scanner_files_writes:
  "merge_scanner_files dir S a = Inr r \<Longrightarrow>
   \<exists>ws. \<forall>a'. merge_scanner_files dir S a' = Inr (merge_items a' ws)"
proof (induction S arbitrary: a r)
  case Nil
  have "\<forall>a'. merge_scanner_files dir [] a' = Inr (merge_items a' [])"
    by (simp add: merge_items_Nil)
  then show ?case by blast
next
  case (Cons T S)
  show ?case
  proof (cases "map_of dir (scanner_file T)")
    case None
    with Cons.prems have "merge_scanner_files dir S a = Inr r" by simp
    from Cons.IH [OF this] None show ?thesis by simp
  next
    case (Some f)
    show ?thesis
    proof (cases f)
      case Corrupt
      with Some Cons.prems show ?thesis by (simp add: json_load_def)
    next
      case (Doc d)
      with Some Cons.prems have "merge_scanner_files dir S (merge_items a d) = Inr r"
        by (simp add: json_load_def)
      from Cons.IH [OF this] obtain ws where
        ws: "\<forall>a'. merge_scanner_files dir S a' = Inr (merge_items a' ws)" by blast
      have "\<forall>a'. merge_scanner_files dir (T # S) a' = Inr (merge_items a' (d @ ws))"
        using Some Doc ws by (simp add: json_load_def merge_items_append)
      then show ?thesis by blast
    qed
  qed
qed

lemma merge_scanner_files_idem:
  assumes "merge_scanner_files dir S a = Inr r"
  shows "merge_scanner_files dir S r = Inr r"
proof -
  from merge_scanner_files_writes [OF assms] obtain ws where
    ws: "\<forall>a'. merge_scanner_files dir S a' = Inr (merge_items a' ws)" by blast
  with assms have r: "r = merge_items a ws" by simp
  from ws have "merge_scanner_files dir S r = Inr (merge_items r ws)" by simp
  with r show ?thesis by (simp add: merge_items_idem)
qed

lemma merge_scanner_files_keeps:
  assumes "merge_scanner_files dir S a = Inr r"
    and "\<forall>T\<in>set S. \<forall>d. map_of dir (scanner_file T) = Some (Doc d) \<longrightarrow> k \<notin> fst ` set d"
  shows "map_of r k = map_of a k"
  using assms
proof (induction S arbitrary: a)
  case Nil
  then show ?case by simp
next
  case (Cons T S)
  show ?case
  proof (cases "map_of dir (scanner_file T)")
    case None
    with Cons show ?thesis by simp
  next
    case (Some f)
    show ?thesis
    proof (cases f)
      case Corrupt
      with Some Cons.prems show ?thesis by (simp add: json_load_def)
    next
      case (Doc d)
      with Some Cons.prems have run: "merge_scanner_files dir S (merge_items a d) = Inr r"
        and nin: "k \<notin> fst ` set d" by (simp_all add: json_load_def)
      from Cons.IH [OF run] Cons.prems(2) have "map_of r k = map_of (merge_items a d) k" by simp
      with nin show ?thesis by (simp add: merge_items_keeps)
    qed
  qed
qed

lemma merge_scanner_files_last_writer:
  assumes "merge_scanner_files dir (before @ T # after) a = Inr r"
    and "map_of dir (scanner_file T) = Some (Doc d)"
    and "distinct (map fst d)" and "map_of d k = Some v"
    and "\<forall>T'\<in>set after. \<forall>d'. map_of dir (scanner_file T') = Some (Doc d') \<longrightarrow> k \<notin> fst ` set d'"
  shows "map_of r k = Some v"
  using assms(1)
proof (induction before arbitrary: a)
  case Nil
  with assms(2) have run: "merge_scanner_files dir after (merge_items a d) = Inr r"
    by (simp add: json_load_def)
  from merge_scanner_files_keeps [OF run assms(5)] assms(3,4) show ?case
    by (simp add: merge_items_overwrites)
next
  case (Cons T' before)
  show ?case
  proof (cases "map_of dir (scanner_file T')")
    case None
    with Cons.prems have "merge_scanner_files dir (before @ T # after) a = Inr r" by simp
    from Cons.IH [OF this] show ?thesis .
  next
    case (Some f)
    show ?thesis
    proof (cases f)
      case Corrupt
      with Some Cons.prems show ?thesis by (simp add: json_load_def)
    next
      case (Doc d')
      with Some Cons.prems
      have "merge_scanner_files dir (before @ T # after) (merge_items a d') = Inr r"
        by (simp add: json_load_def)
      from Cons.IH [OF this] show ?thesis .
    qed
  qed
qed

lemma merge_scanner_files_distinct:
  assumes "merge_scanner_files dir S a = Inr r" and "distinct (map fst a)"
  shows "distinct (map fst r)"
proof -
  from merge_scanner_files_writes [OF assms(1)] obtain ws where
    "\<forall>a'. merge_scanner_files dir S a' = Inr (merge_items a' ws)" by blast
  with assms(1) have "r = merge_items a ws" by simp
  with assms(2) show ?thesis by (simp add: merge_items_distinct)
qed

text \<open>
  Claim C3, as stated, fails: \<open>aggregate_results\<close> assigns every item of every
  temporary file, whatever the file's name, in the order of the registry. When the
  temporary file of a later scanner also holds the key \<open>trivy\<close>, the entry returned
  for \<open>trivy\<close> is that file's, here \<open>[9]\<close>, and not the \<open>[3]\<close> of
  \<open>trivy-violations.json\<close>.
\<close>

theorem aggregate_results_later_file_counterexample:
  "aggregate_results [''trivy'', ''semgrep''] ''acme'' ''api''
     [(''acme-api-violations.json'', Doc [(''trivy'', [5, 6 :: nat])]),
      (''trivy-violations.json'', Doc [(''trivy'', [3])]),
      (''semgrep-violations.json'', Doc [(''trivy'', [9])])]
   = Inr [(''trivy'', [9])]"
  by (simp add: aggregate_results_def per_repo_file_def scanner_file_def json_load_def
      merge_items_def)

text \<open>
  Claim C3 (amended). Let the per-repository file hold an aggregate with a prior entry
  for \<open>S\<close>, and let \<open>T\<close> be the last scanner of the registry whose temporary file
  holds an entry for \<open>S\<close>: no temporary file of a scanner after \<open>T\<close> has the key
  \<open>S\<close>. Then the entry of \<open>S\<close> in the mapping that \<open>aggregate_results\<close> returns
  is the entry of that file, whatever the old entry was (nothing of it is kept). With
  \<open>T = S\<close>: the entry is the one of \<open>S-violations.json\<close> whenever no later scanner's
  file holds the key \<open>S\<close>. Merging the scanner files again into the returned mapping
  gives the same mapping, and scanner keys that were distinct stay distinct.
\<close>

theorem aggregate_results_replaces_entry:
  assumes "map_of dir (per_repo_file org_name repo_name) = Some (Doc aggregated)"
    and "map_of aggregated S = Some old"
    and "SCANNER_MAP = before @ T # after"
    and "map_of dir (scanner_file T) = Some (Doc scanner_data)"
    and "distinct (map fst scanner_data)"
    and "map_of scanner_data S = Some new"
    and "\<forall>T'\<in>set after.
           \<forall>d. map_of dir (scanner_file T') = Some (Doc d) \<longrightarrow> S \<notin> fst ` set d"
    and "aggregate_results SCANNER_MAP org_name repo_name dir = Inr r"
  shows "map_of r S = Some new
       \<and> merge_scanner_files dir SCANNER_MAP r = Inr r
       \<and> (distinct (map fst aggregated) \<longrightarrow> distinct (map fst r))"
proof -
  from assms(1,8) have run: "merge_scanner_files dir SCANNER_MAP aggregated = Inr r"
    by (simp add: aggregate_results_def json_load_def)
  have "map_of r S = Some new"
    by (rule merge_scanner_files_last_writer [OF run [unfolded assms(3)] assms(4,5,6,7)])
  moreover have "merge_scanner_files dir SCANNER_MAP r = Inr r"
    by (rule merge_scanner_files_idem [OF run])
  moreover have "distinct (map fst aggregated) \<longrightarrow> distinct (map fst r)"
    using merge_scanner_files_distinct [OF run] by blast
  ultimately show ?thesis by blast
qed

theorem aggregate_results_replaces_entry_witness:
  "aggregate_results [''trivy'', ''semgrep''] ''acme'' ''api''
     [(''acme-api-violations.json'', Doc [(''trivy'', [5, 6 :: nat]), (''semgrep'', [7])]),
      (''trivy-violations.json'', Doc [(''trivy'', [3])]),
      (''semgrep-violations.json'', Doc [(''semgrep'', [8])])]
     = Inr [(''trivy'', [3]), (''semgrep'', [8])]
   \<and> map_of [(''trivy'', [3 :: nat]), (''semgrep'', [8])] ''trivy'' = Some [3]
   \<and> merge_scanner_files
       [(''acme-api-violations.json'', Doc [(''trivy'', [5, 6 :: nat]), (''semgrep'', [7])]),
        (''trivy-violations.json'', Doc [(''trivy'', [3])]),
        (''semgrep-violations.json'', Doc [(''semgrep'', [8])])]
       [''trivy'', ''semgrep''] [(''trivy'', [3]), (''semgrep'', [8])]
     = Inr [(''trivy'', [3]), (''semgrep'', [8])]"
proof -
  let ?dir = "[(''acme-api-violations.json'',
                  Doc [(''trivy'', [5, 6 :: nat]), (''semgrep'', [7])]),
               (''trivy-violations.json'', Doc [(''trivy'', [3])]),
               (''semgrep-violations.json'', Doc [(''semgrep'', [8])])]"
  let ?r = "[(''trivy'', [3 :: nat]), (''semgrep'', [8])]"
  have run: "aggregate_results [''trivy'', ''semgrep''] ''acme'' ''api'' ?dir = Inr ?r"
    by (simp add: aggregate_results_def per_repo_file_def scanner_file_def json_load_def
        merge_items_def)
  have later: "\<forall>T'\<in>set [''semgrep''].
      \<forall>d. map_of ?dir (scanner_file T') = Some (Doc d) \<longrightarrow> ''trivy'' \<notin> fst ` set d"
    by (simp add: scanner_file_def)
  have concl: "map_of ?r ''trivy'' = Some [3]
       \<and> merge_scanner_files ?dir [''trivy'', ''semgrep''] ?r = Inr ?r
       \<and> (distinct (map fst [(''trivy'', [5, 6 :: nat]), (''semgrep'', [7])]) \<longrightarrow> distinct (map fst ?r))"
    by (rule aggregate_results_replaces_entry
          [of ?dir "''acme''" "''api''" _ "''trivy''" "[5, 6]" "[''trivy'', ''semgrep'']" "[]"
              "''trivy''" "[''semgrep'']" "[(''trivy'', [3])]"])
       (simp_all add: per_repo_file_def scanner_file_def later run)
  from run concl show ?thesis by blast
qed

subsection \<open>Saving and aggregating again\<close>

lemma remove_temp_files_lookup:
  "map_of (remove_temp_files S dir) n
     = (if n \<in> scanner_file ` set S then None else map_of dir n)"
proof (induction S arbitrary: dir)
  case Nil
  then show ?case by simp
next
  case (Cons T S)
  then show ?case by (auto simp: delete_conv')
qed

lemma merge_scanner_files_none:
  "\<forall>T\<in>set S. map_of dir (scanner_file T) = None \<Longrightarrow> merge_scanner_files dir S a = Inr a"
  by (induction S) simp_all

lemma per_repo_is_scanner_file:
  "per_repo_file org_name repo_name = scanner_file T \<longleftrightarrow> org_name @ ''-'' @ repo_name = T"
  by (simp add: per_repo_file_def scanner_file_def)

text \<open>
  The module reckons with scanner names that contain a hyphen: \<open>generate_summary_table\<close>
  skips the temporary files among the files that match \<open>*-*-violations.json\<close>, and
  the temporary file of a scanner matches exactly when the scanner's name has a hyphen.
\<close>

lemma glob_match_scanner_file: "glob_match (scanner_file T) \<longleftrightarrow> CHR ''-'' \<in> set T"
  by (simp add: glob_match_def scanner_file_def endswith_def)

text \<open>
  Where the per-repository file is not the temporary file of a scanner, saving and
  aggregating again gives back the saved mapping, whatever the directory held before,
  and the save leaves no temporary file of a known scanner.
\<close>

lemma save_then_aggregate:
  assumes "org_name @ ''-'' @ repo_name \<notin> set SCANNER_MAP"
  shows "aggregate_results SCANNER_MAP org_name repo_name
           (save_aggregated_results SCANNER_MAP org_name repo_name results dir) = Inr results
       \<and> (\<forall>T\<in>set SCANNER_MAP.
             map_of (save_aggregated_results SCANNER_MAP org_name repo_name results dir)
               (scanner_file T) = None)"
proof -
  let ?d = "save_aggregated_results SCANNER_MAP org_name repo_name results dir"
  have nt: "per_repo_file org_name repo_name \<notin> scanner_file ` set SCANNER_MAP"
    using assms by (auto simp: per_repo_is_scanner_file)
  have a: "map_of ?d (per_repo_file org_name repo_name) = Some (Doc results)"
    using nt by (simp add: save_aggregated_results_def remove_temp_files_lookup update_conv')
  have b: "\<forall>T\<in>set SCANNER_MAP. map_of ?d (scanner_file T) = None"
    by (simp add: save_aggregated_results_def remove_temp_files_lookup)
  from a merge_scanner_files_none [OF b] b show ?thesis
    by (simp add: aggregate_results_def json_load_def)
qed

text \<open>
  Claim C4: saving a mapping and aggregating again returns the mapping that was saved.
  \<open>save_aggregated_results\<close> is documented to save the results to the
  per-repository file and then to remove the scanners' temporary files. For the
  repository \<open>osv/scanner\<close> and a registry with the scanner \<open>osv-scanner\<close> the two
  files have one name, \<open>osv-scanner-violations.json\<close>: the loop that removes the
  temporary files unlinks the file that has just been written. The directory is left
  empty, the saved mapping is lost, and \<open>aggregate_results\<close> returns the empty
  mapping. For the repository \<open>acme/api\<close> the same calls return the saved mapping.
\<close>

theorem save_unlinks_per_repo_file:
  "save_aggregated_results [''trivy'', ''osv-scanner''] ''osv'' ''scanner''
     [(''trivy'', JArr [JObj [(''severity'', JStr ''HIGH'')]])] []
   = []
   \<and> aggregate_results [''trivy'', ''osv-scanner''] ''osv'' ''scanner''
       (save_aggregated_results [''trivy'', ''osv-scanner''] ''osv'' ''scanner''
          [(''trivy'', JArr [JObj [(''severity'', JStr ''HIGH'')]])] [])
     = Inr []
   \<and> aggregate_results [''trivy'', ''osv-scanner''] ''acme'' ''api''
       (save_aggregated_results [''trivy'', ''osv-scanner''] ''acme'' ''api''
          [(''trivy'', JArr [JObj [(''severity'', JStr ''HIGH'')]])] [])
     = Inr [(''trivy'', JArr [JObj [(''severity'', JStr ''HIGH'')]])]"
  by (simp add: aggregate_results_def save_aggregated_results_def per_repo_file_def
      scanner_file_def json_load_def)

subsection \<open>The order of the summary rows\<close>

lemma worst_priority_critical:
  assumes "get_worst_severity vs = Inr w" and "v \<in> set vs" and "severity_of v = JStr ''CRITICAL''"
  shows "severity_priority w = 0"
proof -
  from get_worst_severity_least [OF get_worst_severity_hashable [OF assms(1)]] assms(1)
  have "\<forall>v\<in>set vs. severity_priority w \<le> severity_priority (severity_of v)" by auto
  with assms(2,3) have "severity_priority w \<le> severity_priority (JStr ''CRITICAL'')" by fastforce
  moreover have "severity_priority (JStr ''CRITICAL'') = 0"
    by (simp add: py_get_def SEVERITY_ORDER_def)
  ultimately show ?thesis using severity_priority_nonneg [of w] by simp
qed

lemma make_row_key:
  assumes "make_row org_name repo_name scanners = Inr r"
  shows "\<exists>w. get_worst_severity (concat (map snd scanners)) = Inr w
           \<and> row_sort_key r = (- severity_priority w, row_org_repo r)"
  using assms by (auto simp: make_row_def Let_def split: sum.splits)

lemma make_row_key_none:
  assumes "make_row org_name repo_name scanners = Inr r" and "concat (map snd scanners) = []"
  shows "fst (row_sort_key r) = - 6"
proof -
  from make_row_key [OF assms(1)] obtain w where
    w: "get_worst_severity (concat (map snd scanners)) = Inr w"
       "row_sort_key r = (- severity_priority w, row_org_repo r)" by blast
  from w(1) assms(2) have "w = JStr ''NONE''" by (simp add: get_worst_severity_def)
  with w(2) priority_NONE show ?thesis by simp
qed

lemma make_row_key_critical:
  assumes "make_row org_name repo_name scanners = Inr r"
    and "v \<in> set (concat (map snd scanners))" and "severity_of v = JStr ''CRITICAL''"
  shows "fst (row_sort_key r) = 0"
proof -
  from make_row_key [OF assms(1)] obtain w where
    w: "get_worst_severity (concat (map snd scanners)) = Inr w"
       "row_sort_key r = (- severity_priority w, row_org_repo r)" by blast
  from worst_priority_critical [OF w(1) assms(2,3)] w(2) show ?thesis by simp
qed

lemma map_entry_keys: "map fst (AList.map_entry k f al) = map fst al"
  by (induction al) auto

lemma count_loop_keys: "count_loop vs c = Inr c' \<Longrightarrow> map fst c' = map fst c"
proof (induction vs arbitrary: c)
  case Nil
  then show ?case by simp
next
  case (Cons v vs)
  show ?case
  proof (cases "severity_of v")
    case (JStr s)
    show ?thesis
    proof (cases "map_of c s")
      case None
      with Cons JStr show ?thesis by (simp add: Let_def)
    next
      case (Some n)
      with Cons.prems JStr have "count_loop vs (AList.map_entry s (\<lambda>n. n + 1) c) = Inr c'"
        by (simp add: Let_def)
      from Cons.IH [OF this] show ?thesis by (simp add: map_entry_keys)
    qed
  qed (use Cons in \<open>simp_all add: Let_def\<close>)
qed

lemma py_item_present: "k \<in> set (map fst d) \<Longrightarrow> \<exists>v. py_item d k = Inr v"
proof -
  assume "k \<in> set (map fst d)"
  then have "map_of d k \<noteq> None" by (simp add: map_of_eq_None_iff)
  then show ?thesis by (auto simp: py_item_def)
qed

lemma make_row_counts:
  assumes "make_row org_name repo_name scanners = Inr r"
  shows "map fst (row_severity_counts r) = [''CRITICAL'', ''HIGH'', ''MEDIUM'', ''LOW'']"
proof -
  from assms obtain c where "count_by_severity (concat (map snd scanners)) = Inr c"
    and "row_severity_counts r = c"
    by (auto simp: make_row_def Let_def split: sum.splits)
  then show ?thesis using count_loop_keys [of "concat (map snd scanners)" _ c]
    by (simp add: count_by_severity_def)
qed

lemma table_line_ok:
  assumes "map fst (row_severity_counts r) = [''CRITICAL'', ''HIGH'', ''MEDIUM'', ''LOW'']"
  shows "\<exists>l. table_line r = Inr l"
proof -
  obtain a where a: "py_item (row_severity_counts r) ''CRITICAL'' = Inr a"
    using py_item_present [of "''CRITICAL''" "row_severity_counts r"] assms by auto
  obtain b where b: "py_item (row_severity_counts r) ''HIGH'' = Inr b"
    using py_item_present [of "''HIGH''" "row_severity_counts r"] assms by auto
  obtain c where c: "py_item (row_severity_counts r) ''MEDIUM'' = Inr c"
    using py_item_present [of "''MEDIUM''" "row_severity_counts r"] assms by auto
  obtain d where d: "py_item (row_severity_counts r) ''LOW'' = Inr d"
    using py_item_present [of "''LOW''" "row_severity_counts r"] assms by auto
  from a b c d show ?thesis by (simp add: table_line_def Let_def)
qed

lemma table_lines_all:
  assumes "\<forall>r\<in>set rows. \<exists>l. table_line r = Inr l"
  shows "\<exists>ls. table_lines rows acc = Inr (acc @ ls) \<and> length ls = length rows
            \<and> (\<forall>k<length rows. table_line (rows ! k) = Inr (ls ! k))"
  using assms
proof (induction rows arbitrary: acc)
  case Nil
  then show ?case by simp
next
  case (Cons r rows)
  then obtain l where l: "table_line r = Inr l" by auto
  from Cons.IH [of "acc @ [l]"] Cons.prems obtain ls where
    ls: "table_lines rows (acc @ [l]) = Inr ((acc @ [l]) @ ls)" "length ls = length rows"
        "\<forall>k<length rows. table_line (rows ! k) = Inr (ls ! k)" by auto
  have "\<forall>k<length (r # rows). table_line ((r # rows) ! k) = Inr ((l # ls) ! k)"
    using l ls(3) by (auto simp: nth_Cons split: nat.splits)
  with l ls(1,2) show ?case by (intro exI [of _ "l # ls"]) simp
qed

lemma collect_rows_step:
  assumes "collect_rows S ((fname, f) # fs) acc = Inr rs"
  shows "collect_rows S fs acc = Inr rs
       \<or> (\<exists>org_name repo_name scanners r. f = Doc scanners
            \<and> make_row org_name repo_name scanners = Inr r
            \<and> collect_rows S fs (acc @ [r]) = Inr rs)"
proof (cases "fname \<in> set (TEMP_SCANNER_FILE_NAMES S)")
  case True
  with assms show ?thesis by simp
next
  case False
  let ?parts = "split_once (CHR ''-'') (str_remove ''-violations'' (stem fname))"
  show ?thesis
  proof (cases "length ?parts \<noteq> 2")
    case True
    with False assms show ?thesis by (simp add: Let_def)
  next
    case two: False
    show ?thesis
    proof (cases f)
      case Corrupt
      with False two assms show ?thesis by (simp add: Let_def json_load_def)
    next
      case (Doc scanners)
      show ?thesis
      proof (cases "make_row (?parts ! 0) (?parts ! 1) scanners")
        case (Inl e)
        with False two Doc assms show ?thesis by (simp add: Let_def json_load_def)
      next
        case (Inr r)
        with False two Doc assms have "collect_rows S fs (acc @ [r]) = Inr rs"
          by (simp add: Let_def json_load_def)
        with Doc Inr show ?thesis by blast
      qed
    qed
  qed
qed

lemma collect_rows_from_files:
  assumes "collect_rows S fs acc = Inr rs"
  shows "\<exists>new. rs = acc @ new
           \<and> (\<forall>r\<in>set new. \<exists>fname org_name repo_name scanners.
                 (fname, Doc scanners) \<in> set fs \<and> make_row org_name repo_name scanners = Inr r)"
  using assms
proof (induction fs arbitrary: acc)
  case Nil
  then show ?case by simp
next
  case (Cons p fs)
  obtain fname f where p: "p = (fname, f)" by (cases p)
  from collect_rows_step [of S fname f fs acc rs] Cons.prems p
  consider (skip) "collect_rows S fs acc = Inr rs"
    | (row) org_name repo_name scanners r where "f = Doc scanners"
        "make_row org_name repo_name scanners = Inr r" "collect_rows S fs (acc @ [r]) = Inr rs"
    by blast
  then show ?case
  proof cases
    case skip
    from Cons.IH [OF skip] obtain new where new: "rs = acc @ new"
      "\<forall>r\<in>set new. \<exists>fname org_name repo_name scanners.
          (fname, Doc scanners) \<in> set fs \<and> make_row org_name repo_name scanners = Inr r" by blast
    have "\<forall>r\<in>set new. \<exists>fname org_name repo_name scanners.
          (fname, Doc scanners) \<in> set (p # fs) \<and> make_row org_name repo_name scanners = Inr r"
    proof
      fix x assume "x \<in> set new"
      with new(2) obtain n a b c where "(n, Doc c) \<in> set fs" "make_row a b c = Inr x" by blast
      then have "(n, Doc c) \<in> set (p # fs) \<and> make_row a b c = Inr x" by simp
      then show "\<exists>fname org_name repo_name scanners.
          (fname, Doc scanners) \<in> set (p # fs) \<and> make_row org_name repo_name scanners = Inr x"
        by blast
    qed
    with new(1) show ?thesis by blast
  next
    case row
    from Cons.IH [OF row(3)] obtain new where new: "rs = (acc @ [r]) @ new"
      "\<forall>r\<in>set new. \<exists>fname org_name repo_name scanners.
          (fname, Doc scanners) \<in> set fs \<and> make_row org_name repo_name scanners = Inr r" by blast
    have "\<forall>x\<in>set (r # new). \<exists>fname org_name repo_name scanners.
          (fname, Doc scanners) \<in> set (p # fs) \<and> make_row org_name repo_name scanners = Inr x"
    proof
      fix x assume x: "x \<in> set (r # new)"
      show "\<exists>fname org_name repo_name scanners.
          (fname, Doc scanners) \<in> set (p # fs) \<and> make_row org_name repo_name scanners = Inr x"
      proof (cases "x = r")
        case True
        have "(fname, Doc scanners) \<in> set (p # fs) \<and> make_row org_name repo_name scanners = Inr x"
          using row(1,2) p True by simp
        then show ?thesis by blast
      next
        case False
        with x have "x \<in> set new" by simp
        with new(2) obtain n a b c where "(n, Doc c) \<in> set fs" "make_row a b c = Inr x" by blast
        then have "(n, Doc c) \<in> set (p # fs) \<and> make_row a b c = Inr x" by simp
        then show ?thesis by blast
      qed
    qed
    moreover from new(1) have "rs = acc @ (r # new)" by simp
    ultimately show ?thesis by blast
  qed
qed

lemma sorted_nth_le:
  "sorted (map f xs) \<Longrightarrow> i \<le> j \<Longrightarrow> j < length xs \<Longrightarrow> f (xs ! i) \<le> f (xs ! j)"
  using sorted_iff_nth_mono [of "map f xs"] by auto

text \<open>
  Claim C2. The rows of the summary table are sorted ascending by the key (negated rank
  of the worst severity, \<open>org/repo\<close>), each row being the row of one repository file
  of the directory. Hence the row of a repository with no findings (key \<open>-6\<close>) stands
  before the row of a repository whose flattened violations contain a CRITICAL finding
  (key \<open>0\<close>), and rows of equal rank are ordered by their \<open>org/repo\<close> string. The
  table is the four header lines followed by one line per row, in this order.
\<close>

theorem summary_rows_order:
  assumes "summary_rows SCANNER_MAP dir = Inr rows"
  shows "sorted (map row_sort_key rows)
    \<and> (\<forall>r\<in>set rows. \<exists>fname org_name repo_name scanners w.
          (fname, Doc scanners) \<in> set dir \<and> make_row org_name repo_name scanners = Inr r
          \<and> get_worst_severity (concat (map snd scanners)) = Inr w
          \<and> row_sort_key r = (- severity_priority w, row_org_repo r))
    \<and> (\<forall>i j. i \<le> j \<and> j < length rows
              \<and> fst (row_sort_key (rows ! i)) = fst (row_sort_key (rows ! j))
          \<longrightarrow> row_org_repo (rows ! i) \<le> row_org_repo (rows ! j))
    \<and> (\<forall>i j o1 r1 s1 o2 r2 s2.
          i < length rows \<and> j < length rows
          \<and> make_row o1 r1 s1 = Inr (rows ! i) \<and> concat (map snd s1) = []
          \<and> make_row o2 r2 s2 = Inr (rows ! j)
          \<and> (\<exists>v\<in>set (concat (map snd s2)). severity_of v = JStr ''CRITICAL'')
          \<longrightarrow> i < j)
    \<and> (\<exists>ls. generate_summary_table SCANNER_MAP dir = Inr (str_join [CHR 0x0A] (table_header @ ls))
            \<and> length ls = length rows
            \<and> (\<forall>k<length rows. table_line (rows ! k) = Inr (ls ! k)))"
proof -
  let ?files = "filter (\<lambda>(fname, f). glob_match fname) dir"
  from assms obtain us where us: "collect_rows SCANNER_MAP ?files [] = Inr us"
    and rows: "rows = sort_key row_sort_key us"
    by (auto simp: summary_rows_def split: sum.splits)
  have srt: "sorted (map row_sort_key rows)" using rows by simp
  from collect_rows_from_files [OF us]
  have src0: "\<forall>r\<in>set us. \<exists>fname org_name repo_name scanners.
      (fname, Doc scanners) \<in> set ?files \<and> make_row org_name repo_name scanners = Inr r" by simp
  have src: "\<forall>r\<in>set rows. \<exists>fname org_name repo_name scanners.
      (fname, Doc scanners) \<in> set dir \<and> make_row org_name repo_name scanners = Inr r"
  proof
    fix r assume "r \<in> set rows"
    then have "r \<in> set us" using rows by simp
    with src0 obtain n a b c where "(n, Doc c) \<in> set ?files" "make_row a b c = Inr r" by blast
    then have "(n, Doc c) \<in> set dir \<and> make_row a b c = Inr r" by simp
    then show "\<exists>fname org_name repo_name scanners.
      (fname, Doc scanners) \<in> set dir \<and> make_row org_name repo_name scanners = Inr r" by blast
  qed
  have snd_key: "\<And>k. k < length rows \<Longrightarrow> snd (row_sort_key (rows ! k)) = row_org_repo (rows ! k)"
  proof -
    fix k assume "k < length rows"
    then have "rows ! k \<in> set rows" by simp
    with src obtain n a b c where "make_row a b c = Inr (rows ! k)" by blast
    from make_row_key [OF this] show "snd (row_sort_key (rows ! k)) = row_org_repo (rows ! k)"
      by auto
  qed
  have ties: "\<forall>i j. i \<le> j \<and> j < length rows
              \<and> fst (row_sort_key (rows ! i)) = fst (row_sort_key (rows ! j))
          \<longrightarrow> row_org_repo (rows ! i) \<le> row_org_repo (rows ! j)"
  proof (intro allI impI)
    fix i j
    assume h: "i \<le> j \<and> j < length rows
              \<and> fst (row_sort_key (rows ! i)) = fst (row_sort_key (rows ! j))"
    then have "row_sort_key (rows ! i) \<le> row_sort_key (rows ! j)"
      using sorted_nth_le [OF srt, of i j] by simp
    with h have "snd (row_sort_key (rows ! i)) \<le> snd (row_sort_key (rows ! j))"
      by (cases "row_sort_key (rows ! i)"; cases "row_sort_key (rows ! j)") auto
    with h snd_key [of i] snd_key [of j] show "row_org_repo (rows ! i) \<le> row_org_repo (rows ! j)"
      by simp
  qed
  have crit: "\<forall>i j o1 r1 s1 o2 r2 s2.
          i < length rows \<and> j < length rows
          \<and> make_row o1 r1 s1 = Inr (rows ! i) \<and> concat (map snd s1) = []
          \<and> make_row o2 r2 s2 = Inr (rows ! j)
          \<and> (\<exists>v\<in>set (concat (map snd s2)). severity_of v = JStr ''CRITICAL'')
          \<longrightarrow> i < j"
  proof (intro allI impI)
    fix i j o1 r1 s1 o2 r2 s2
    assume h: "i < length rows \<and> j < length rows
          \<and> make_row o1 r1 s1 = Inr (rows ! i) \<and> concat (map snd s1) = []
          \<and> make_row o2 r2 s2 = Inr (rows ! j)
          \<and> (\<exists>v\<in>set (concat (map snd s2)). severity_of v = JStr ''CRITICAL'')"
    then have ki: "fst (row_sort_key (rows ! i)) = - 6"
      using make_row_key_none [of o1 r1 s1 "rows ! i"] by simp
    from h obtain v where "v \<in> set (concat (map snd s2))" "severity_of v = JStr ''CRITICAL''"
      by blast
    with h have kj: "fst (row_sort_key (rows ! j)) = 0"
      using make_row_key_critical [of o2 r2 s2 "rows ! j" v] by simp
    show "i < j"
    proof (rule ccontr)
      assume "\<not> i < j"
      then have "j \<le> i" by simp
      with h have "row_sort_key (rows ! j) \<le> row_sort_key (rows ! i)"
        using sorted_nth_le [OF srt, of j i] by simp
      then have "fst (row_sort_key (rows ! j)) \<le> fst (row_sort_key (rows ! i))"
        by (cases "row_sort_key (rows ! i)"; cases "row_sort_key (rows ! j)") auto
      with ki kj show False by simp
    qed
  qed
  have "\<forall>r\<in>set rows. \<exists>l. table_line r = Inr l"
  proof
    fix r assume "r \<in> set rows"
    with src obtain n a b c where "make_row a b c = Inr r" by blast
    from table_line_ok [OF make_row_counts [OF this]] show "\<exists>l. table_line r = Inr l" .
  qed
  from table_lines_all [OF this, of table_header] obtain ls where
    ls: "table_lines rows table_header = Inr (table_header @ ls)" "length ls = length rows"
        "\<forall>k<length rows. table_line (rows ! k) = Inr (ls ! k)" by blast
  have "generate_summary_table SCANNER_MAP dir = Inr (str_join [CHR 0x0A] (table_header @ ls))"
    using assms ls(1) by (simp add: generate_summary_table_def)
  with ls(2,3) have tbl: "\<exists>ls. generate_summary_table SCANNER_MAP dir = Inr (str_join [CHR 0x0A] (table_header @ ls))
            \<and> length ls = length rows
            \<and> (\<forall>k<length rows. table_line (rows ! k) = Inr (ls ! k))" by blast
  have src2: "\<forall>r\<in>set rows. \<exists>fname org_name repo_name scanners w.
          (fname, Doc scanners) \<in> set dir \<and> make_row org_name repo_name scanners = Inr r
          \<and> get_worst_severity (concat (map snd scanners)) = Inr w
          \<and> row_sort_key r = (- severity_priority w, row_org_repo r)"
  proof
    fix r assume "r \<in> set rows"
    with src obtain n a b c where f: "(n, Doc c) \<in> set dir" "make_row a b c = Inr r" by blast
    from make_row_key [OF f(2)] obtain w where
      "get_worst_severity (concat (map snd c)) = Inr w"
      "row_sort_key r = (- severity_priority w, row_org_repo r)" by blast
    with f show "\<exists>fname org_name repo_name scanners w.
          (fname, Doc scanners) \<in> set dir \<and> make_row org_name repo_name scanners = Inr r
          \<and> get_worst_severity (concat (map snd scanners)) = Inr w
          \<and> row_sort_key r = (- severity_priority w, row_org_repo r)" by blast
  qed
  from srt src2 ties crit tbl show ?thesis by blast
qed

theorem summary_rows_order_witness:
  "summary_rows [''trivy'', ''osv-scanner'']
     [(''zed-app-violations.json'',
         Doc [(''trivy'', [ [(''severity'', JStr ''CRITICAL''), (''fixed_version'', JStr ''1.2'')] ])]),
      (''osv-scanner-violations.json'', Doc []),
      (''acme-clean-violations.json'', Doc [(''trivy'', [])])]
   = Inr [\<lparr>row_org_repo = ''acme/clean'', row_filename = ''acme-clean-violations.json'',
            row_total = 0,
            row_severity_counts = [(''CRITICAL'', 0), (''HIGH'', 0), (''MEDIUM'', 0), (''LOW'', 0)],
            row_fixable = 0, row_scanners = ''trivy'', row_status = green_circle,
            row_sort_key = (- 6, ''acme/clean'')\<rparr>,
          \<lparr>row_org_repo = ''zed/app'', row_filename = ''zed-app-violations.json'',
            row_total = 1,
            row_severity_counts = [(''CRITICAL'', 1), (''HIGH'', 0), (''MEDIUM'', 0), (''LOW'', 0)],
            row_fixable = 1, row_scanners = ''trivy'', row_status = red_circle,
            row_sort_key = (0, ''zed/app'')\<rparr>]
   \<and> sorted [(- 6 :: int, ''acme/clean''), (0, ''zed/app'')]"
proof -
  let ?dir = "[(''zed-app-violations.json'',
         Doc [(''trivy'', [ [(''severity'', JStr ''CRITICAL''), (''fixed_version'', JStr ''1.2'')] ])]),
      (''osv-scanner-violations.json'', Doc []),
      (''acme-clean-violations.json'', Doc [(''trivy'', [])])]"
  let ?rows = "[\<lparr>row_org_repo = ''acme/clean'', row_filename = ''acme-clean-violations.json'',
            row_total = 0,
            row_severity_counts = [(''CRITICAL'', 0), (''HIGH'', 0), (''MEDIUM'', 0), (''LOW'', 0)],
            row_fixable = 0, row_scanners = ''trivy'', row_status = green_circle,
            row_sort_key = (- 6, ''acme/clean'')\<rparr>,
          \<lparr>row_org_repo = ''zed/app'', row_filename = ''zed-app-violations.json'',
            row_total = 1,
            row_severity_counts = [(''CRITICAL'', 1), (''HIGH'', 0), (''MEDIUM'', 0), (''LOW'', 0)],
            row_fixable = 1, row_scanners = ''trivy'', row_status = red_circle,
            row_sort_key = (0, ''zed/app'')\<rparr>]"
  have run: "summary_rows [''trivy'', ''osv-scanner''] ?dir = Inr ?rows"
    by code_simp
  from summary_rows_order [OF run] have "sorted (map row_sort_key ?rows)" by blast
  then have "sorted [(- 6 :: int, ''acme/clean''), (0, ''zed/app'')]" by simp
  with run show ?thesis by blast
qed

section \<open>Properties of the tool detector\<close>

subsection \<open>What a pattern matches\<close>

text \<open>
  The matcher lists the ways a pattern matches in the order of a backtracking search.
  As a set, they are the splits of the text that the pattern describes.
\<close>

lemma star_greedy_set:
  "set (star_greedy p s) = {s'. \<exists>w. s = w @ s' \<and> (\<forall>c\<in>set w. p c)}"
proof (induction s)
  case Nil
  then show ?case by auto
next
  case (Cons c cs)
  show ?case
  proof (rule set_eqI, rule iffI)
    fix x assume "x \<in> set (star_greedy p (c # cs))"
    then consider "x = c # cs" | "p c" "x \<in> set (star_greedy p cs)" by (auto split: if_splits)
    then show "x \<in> {s'. \<exists>w. c # cs = w @ s' \<and> (\<forall>c\<in>set w. p c)}"
    proof cases
      case 1
      then have "c # cs = [] @ x \<and> (\<forall>c\<in>set []. p c)" by simp
      then show ?thesis by blast
    next
      case 2
      with Cons.IH obtain w where "cs = w @ x" "\<forall>c\<in>set w. p c" by auto
      with 2(1) have "c # cs = (c # w) @ x \<and> (\<forall>a\<in>set (c # w). p a)" by simp
      then show ?thesis by blast
    qed
  next
    fix x assume "x \<in> {s'. \<exists>w. c # cs = w @ s' \<and> (\<forall>c\<in>set w. p c)}"
    then obtain w where w: "c # cs = w @ x" "\<forall>c\<in>set w. p c" by auto
    show "x \<in> set (star_greedy p (c # cs))"
    proof (cases w)
      case Nil
      with w show ?thesis by auto
    next
      case (Cons a w')
      with w have "a = c" "cs = w' @ x" "p c" "\<forall>c\<in>set w'. p c" by auto
      with Cons.IH have "x \<in> set (star_greedy p cs)" by auto
      with \<open>p c\<close> show ?thesis by simp
    qed
  qed
qed

lemma star_lazy_set: "set (star_lazy p s) = set (star_greedy p s)"
  by (induction s) auto

text \<open>What one match of a pattern consumes, and what it does to the groups.\<close>

lemma rmatch_Lit:
  "(s', g') \<in> set (rmatch U (Lit l) s g) \<longleftrightarrow> s = ustr l @ s' \<and> g' = g"
  by (auto simp: prefix_def ustr_def)

lemma rmatch_Escaped:
  "(s', g') \<in> set (rmatch U (Escaped t) s g) \<longleftrightarrow> s = t @ s' \<and> g' = g"
  by (auto simp: prefix_def)

lemma rmatch_One:
  "(s', g') \<in> set (rmatch U (One cl) s g) \<longleftrightarrow> (\<exists>c. s = c # s' \<and> in_class U cl c) \<and> g' = g"
  by (auto split: list.splits)

lemma rmatch_Star:
  "(s', g') \<in> set (rmatch U (Star cl) s g)
     \<longleftrightarrow> (\<exists>w. s = w @ s' \<and> (\<forall>c\<in>set w. in_class U cl c)) \<and> g' = g"
  by (auto simp: star_greedy_set)

lemma rmatch_Plus:
  "(s', g') \<in> set (rmatch U (Plus cl) s g)
     \<longleftrightarrow> (\<exists>w. w \<noteq> [] \<and> s = w @ s' \<and> (\<forall>c\<in>set w. in_class U cl c)) \<and> g' = g"
proof
  assume "(s', g') \<in> set (rmatch U (Plus cl) s g)"
  then obtain c cs where s: "s = c # cs" "in_class U cl c" "s' \<in> set (star_greedy (in_class U cl) cs)" "g' = g"
    by (auto split: list.splits if_splits)
  then obtain w where "cs = w @ s'" "\<forall>c\<in>set w. in_class U cl c" by (auto simp: star_greedy_set)
  with s have "c # w \<noteq> [] \<and> s = (c # w) @ s' \<and> (\<forall>a\<in>set (c # w). in_class U cl a)" by simp
  with s(4) show "(\<exists>w. w \<noteq> [] \<and> s = w @ s' \<and> (\<forall>c\<in>set w. in_class U cl c)) \<and> g' = g" by blast
next
  assume "(\<exists>w. w \<noteq> [] \<and> s = w @ s' \<and> (\<forall>c\<in>set w. in_class U cl c)) \<and> g' = g"
  then obtain w where w: "w \<noteq> []" "s = w @ s'" "\<forall>c\<in>set w. in_class U cl c" "g' = g" by blast
  then obtain c w' where "w = c # w'" by (cases w) auto
  with w have "s = c # (w' @ s')" "in_class U cl c" "s' \<in> set (star_greedy (in_class U cl) (w' @ s'))"
    by (auto simp: star_greedy_set)
  with w(4) show "(s', g') \<in> set (rmatch U (Plus cl) s g)" by auto
qed

lemma rmatch_Seq:
  "(s', g') \<in> set (rmatch U (Seq a b) s g)
     \<longleftrightarrow> (\<exists>s1 g1. (s1, g1) \<in> set (rmatch U a s g) \<and> (s', g') \<in> set (rmatch U b s1 g1))"
  by auto

lemma rmatch_Opt:
  "(s', g') \<in> set (rmatch U (Opt a) s g)
     \<longleftrightarrow> (s', g') \<in> set (rmatch U a s g) \<or> (s' = s \<and> g' = g)"
  by auto

lemma rmatch_suffix: "(s', g') \<in> set (rmatch U r s g) \<Longrightarrow> \<exists>w. s = w @ s'"
proof (induction r arbitrary: s g s' g')
  case (Seq a b)
  then obtain s1 g1 where "(s1, g1) \<in> set (rmatch U a s g)" "(s', g') \<in> set (rmatch U b s1 g1)"
    by auto
  with Seq.IH obtain w1 w2 where "s = w1 @ s1" "s1 = w2 @ s'" by blast
  then have "s = (w1 @ w2) @ s'" by simp
  then show ?case by blast
next
  case (Plus cl)
  then show ?case using rmatch_Plus by blast
next
  case (Lit l)
  then show ?case using rmatch_Lit by blast
next
  case (Escaped t)
  then show ?case using rmatch_Escaped by blast
next
  case (One cl)
  then have "\<exists>c. s = [c] @ s'" using rmatch_One by auto
  then show ?case by blast
next
  case (Star cl)
  then show ?case using rmatch_Star by blast
next
  case (LazyStar cl)
  then show ?case by (auto simp: star_lazy_set star_greedy_set)
next
  case (Alt a b)
  then show ?case by auto
next
  case (Opt a)
  then show ?case by auto
next
  case (Group i a)
  then show ?case by auto
qed

lemma rmatch_Group:
  "(s', g') \<in> set (rmatch U (Group i a) s g)
     \<longleftrightarrow> (\<exists>w g1. s = w @ s' \<and> (s', g1) \<in> set (rmatch U a s g) \<and> g' = g1(i \<mapsto> w))"
proof
  assume "(s', g') \<in> set (rmatch U (Group i a) s g)"
  then obtain g1 where g1: "(s', g1) \<in> set (rmatch U a s g)"
      "g' = g1(i \<mapsto> take (length s - length s') s)" by auto
  from rmatch_suffix [OF g1(1)] obtain w where "s = w @ s'" by blast
  with g1 show "\<exists>w g1. s = w @ s' \<and> (s', g1) \<in> set (rmatch U a s g) \<and> g' = g1(i \<mapsto> w)"
    by auto
next
  assume "\<exists>w g1. s = w @ s' \<and> (s', g1) \<in> set (rmatch U a s g) \<and> g' = g1(i \<mapsto> w)"
  then obtain w g1 where "s = w @ s'" "(s', g1) \<in> set (rmatch U a s g)" "g' = g1(i \<mapsto> w)" by blast
  then show "(s', g') \<in> set (rmatch U (Group i a) s g)" by force
qed

text \<open>The parts of the decorator pattern.\<close>

lemma quote_class: "in_class U (OneOf [dq, sq]) c \<longleftrightarrow> c \<in> {34, 39}"
  by (auto simp: ustr_def dq_def sq_def)

lemma not_quote_class: "in_class U (NoneOf [dq, sq]) c \<longleftrightarrow> c \<noteq> 34 \<and> c \<noteq> 39"
  by (auto simp: ustr_def dq_def sq_def)

lemma not_brace_class: "in_class U (NoneOf ''}'') c \<longleftrightarrow> c \<noteq> 125"
  by (auto simp: ustr_def)

lemma seq_Lit:
  "(s', g') \<in> set (rmatch U (Seq (Lit l) b) s g)
     \<longleftrightarrow> (\<exists>s1. s = ustr l @ s1 \<and> (s', g') \<in> set (rmatch U b s1 g))"
  unfolding rmatch_Seq rmatch_Lit by blast

lemma seq_Star:
  "(s', g') \<in> set (rmatch U (Seq (Star cl) b) s g)
     \<longleftrightarrow> (\<exists>w s1. s = w @ s1 \<and> (\<forall>c\<in>set w. in_class U cl c) \<and> (s', g') \<in> set (rmatch U b s1 g))"
  unfolding rmatch_Seq rmatch_Star by blast

lemma rmatch_quoted:
  "(s1, g1) \<in> set (rmatch U (quoted i) s g)
     \<longleftrightarrow> (\<exists>q1 d q2. s = q1 # d @ q2 # s1 \<and> q1 \<in> {34, 39} \<and> q2 \<in> {34, 39}
            \<and> d \<noteq> [] \<and> 34 \<notin> set d \<and> 39 \<notin> set d \<and> g1 = g(i \<mapsto> d))"
proof
  assume "(s1, g1) \<in> set (rmatch U (quoted i) s g)"
  then obtain sa ga sb gb where
    a: "(sa, ga) \<in> set (rmatch U (One (OneOf [dq, sq])) s g)"
    and b: "(sb, gb) \<in> set (rmatch U (Group i (Plus (NoneOf [dq, sq]))) sa ga)"
    and c: "(s1, g1) \<in> set (rmatch U (One (OneOf [dq, sq])) sb gb)"
    unfolding quoted_def cat.simps rmatch_Seq by blast
  from a obtain q1 where q1: "s = q1 # sa" "q1 \<in> {34, 39}" "ga = g"
    unfolding rmatch_One quote_class by blast
  from b obtain d g2 where d: "sa = d @ sb" "(sb, g2) \<in> set (rmatch U (Plus (NoneOf [dq, sq])) sa ga)"
      "gb = g2(i \<mapsto> d)"
    unfolding rmatch_Group by blast
  from d(2) obtain w where w: "w \<noteq> []" "sa = w @ sb" "\<forall>c\<in>set w. c \<noteq> 34 \<and> c \<noteq> 39" "g2 = ga"
    unfolding rmatch_Plus not_quote_class by blast
  from w(2) d(1) have "w = d" by simp
  from c obtain q2 where q2: "sb = q2 # s1" "q2 \<in> {34, 39}" "g1 = gb"
    unfolding rmatch_One quote_class by blast
  have "s = q1 # d @ q2 # s1" using q1(1) d(1) q2(1) by simp
  moreover have "d \<noteq> []" "34 \<notin> set d" "39 \<notin> set d" using w \<open>w = d\<close> by auto
  moreover have "g1 = g(i \<mapsto> d)" using q2(3) d(3) w(4) q1(3) by simp
  ultimately show "\<exists>q1 d q2. s = q1 # d @ q2 # s1 \<and> q1 \<in> {34, 39} \<and> q2 \<in> {34, 39}
            \<and> d \<noteq> [] \<and> 34 \<notin> set d \<and> 39 \<notin> set d \<and> g1 = g(i \<mapsto> d)"
    using q1(2) q2(2) by blast
next
  assume "\<exists>q1 d q2. s = q1 # d @ q2 # s1 \<and> q1 \<in> {34, 39} \<and> q2 \<in> {34, 39}
            \<and> d \<noteq> [] \<and> 34 \<notin> set d \<and> 39 \<notin> set d \<and> g1 = g(i \<mapsto> d)"
  then obtain q1 d q2 where h: "s = q1 # d @ q2 # s1" "q1 \<in> {34, 39}" "q2 \<in> {34, 39}"
      "d \<noteq> []" "34 \<notin> set d" "39 \<notin> set d" "g1 = g(i \<mapsto> d)" by blast
  have a: "(d @ q2 # s1, g) \<in> set (rmatch U (One (OneOf [dq, sq])) s g)"
    unfolding rmatch_One quote_class using h(1,2) by blast
  have "\<forall>c\<in>set d. c \<noteq> 34 \<and> c \<noteq> 39" using h(5,6) by auto
  then have "(q2 # s1, g) \<in> set (rmatch U (Plus (NoneOf [dq, sq])) (d @ q2 # s1) g)"
    unfolding rmatch_Plus not_quote_class using h(4) by blast
  then have b: "(q2 # s1, g(i \<mapsto> d)) \<in> set (rmatch U (Group i (Plus (NoneOf [dq, sq]))) (d @ q2 # s1) g)"
    unfolding rmatch_Group by blast
  have c: "(s1, g1) \<in> set (rmatch U (One (OneOf [dq, sq])) (q2 # s1) (g(i \<mapsto> d)))"
    unfolding rmatch_One quote_class using h(3,7) by blast
  from a b c show "(s1, g1) \<in> set (rmatch U (quoted i) s g)"
    unfolding quoted_def cat.simps rmatch_Seq by blast
qed

lemma seq_quoted:
  "(s', g') \<in> set (rmatch U (Seq (quoted i) b) s g)
     \<longleftrightarrow> (\<exists>q1 d q2 s1. s = q1 # d @ q2 # s1 \<and> q1 \<in> {34, 39} \<and> q2 \<in> {34, 39}
            \<and> d \<noteq> [] \<and> 34 \<notin> set d \<and> 39 \<notin> set d
            \<and> (s', g') \<in> set (rmatch U b s1 (g(i \<mapsto> d))))"
  unfolding rmatch_Seq rmatch_quoted by blast

lemma rmatch_keyword:
  "(s1, g1) \<in> set (rmatch U (Opt (Seq (Lit kw) (Plus Space))) s g)
     \<longleftrightarrow> (\<exists>w. s = w @ s1 \<and> keyword_part U kw w) \<and> g1 = g"
proof
  assume "(s1, g1) \<in> set (rmatch U (Opt (Seq (Lit kw) (Plus Space))) s g)"
  then consider "s1 = s" "g1 = g"
    | sa sp where "s = ustr kw @ sa" "sp \<noteq> []" "sa = sp @ s1" "\<forall>c\<in>set sp. is_space U c" "g1 = g"
    unfolding rmatch_Opt rmatch_Seq rmatch_Lit rmatch_Plus in_class.simps by blast
  then show "(\<exists>w. s = w @ s1 \<and> keyword_part U kw w) \<and> g1 = g"
  proof cases
    case 1
    then have "s = [] @ s1 \<and> keyword_part U kw []" by (simp add: keyword_part_def)
    with 1 show ?thesis by blast
  next
    case 2
    then have "s = (ustr kw @ sp) @ s1 \<and> keyword_part U kw (ustr kw @ sp)"
      by (auto simp: keyword_part_def)
    with 2 show ?thesis by blast
  qed
next
  assume "(\<exists>w. s = w @ s1 \<and> keyword_part U kw w) \<and> g1 = g"
  then obtain w where w: "s = w @ s1" "keyword_part U kw w" "g1 = g" by blast
  from w(2) consider "w = []" | sp where "w = ustr kw @ sp" "sp \<noteq> []" "\<forall>c\<in>set sp. is_space U c"
    unfolding keyword_part_def by blast
  then show "(s1, g1) \<in> set (rmatch U (Opt (Seq (Lit kw) (Plus Space))) s g)"
  proof cases
    case 1
    with w show ?thesis unfolding rmatch_Opt by simp
  next
    case 2
    with w have "s = ustr kw @ (sp @ s1)" by simp
    with 2 w(3) show ?thesis
      unfolding rmatch_Opt rmatch_Seq rmatch_Lit rmatch_Plus in_class.simps by blast
  qed
qed

lemma seq_keyword:
  "(s', g') \<in> set (rmatch U (Seq (Opt (Seq (Lit kw) (Plus Space))) b) s g)
     \<longleftrightarrow> (\<exists>w s1. s = w @ s1 \<and> keyword_part U kw w \<and> (s', g') \<in> set (rmatch U b s1 g))"
  unfolding rmatch_Seq rmatch_keyword by blast

lemma seq_LitE:
  assumes "(s', g') \<in> set (rmatch U (Seq (Lit l) b) s g)"
  obtains s1 where "s = ustr l @ s1" "(s', g') \<in> set (rmatch U b s1 g)"
  using assms unfolding seq_Lit by blast

lemma seq_StarE:
  assumes "(s', g') \<in> set (rmatch U (Seq (Star cl) b) s g)"
  obtains w s1 where "s = w @ s1" "\<forall>c\<in>set w. in_class U cl c" "(s', g') \<in> set (rmatch U b s1 g)"
  using assms unfolding seq_Star by blast

lemma seq_quotedE:
  assumes "(s', g') \<in> set (rmatch U (Seq (quoted i) b) s g)"
  obtains q1 d q2 s1 where "s = q1 # d @ q2 # s1" "q1 \<in> {34, 39}" "q2 \<in> {34, 39}"
    "d \<noteq> []" "34 \<notin> set d" "39 \<notin> set d" "(s', g') \<in> set (rmatch U b s1 (g(i \<mapsto> d)))"
  using assms unfolding seq_quoted by blast

lemma seq_keywordE:
  assumes "(s', g') \<in> set (rmatch U (Seq (Opt (Seq (Lit kw) (Plus Space))) b) s g)"
  obtains w s1 where "s = w @ s1" "keyword_part U kw w" "(s', g') \<in> set (rmatch U b s1 g)"
  using assms unfolding seq_keyword by blast

lemma seq_LitI:
  "(s', g') \<in> set (rmatch U b s1 g) \<Longrightarrow> (s', g') \<in> set (rmatch U (Seq (Lit l) b) (ustr l @ s1) g)"
  unfolding seq_Lit by blast

lemma seq_StarI:
  "\<forall>c\<in>set w. in_class U cl c \<Longrightarrow> (s', g') \<in> set (rmatch U b s1 g)
   \<Longrightarrow> (s', g') \<in> set (rmatch U (Seq (Star cl) b) (w @ s1) g)"
  unfolding seq_Star by blast

lemma seq_quotedI:
  "q1 \<in> {34, 39} \<Longrightarrow> q2 \<in> {34, 39} \<Longrightarrow> d \<noteq> [] \<Longrightarrow> 34 \<notin> set d \<Longrightarrow> 39 \<notin> set d
   \<Longrightarrow> (s', g') \<in> set (rmatch U b s1 (g(i \<mapsto> d)))
   \<Longrightarrow> (s', g') \<in> set (rmatch U (Seq (quoted i) b) (q1 # d @ q2 # s1) g)"
  unfolding seq_quoted by blast

lemma seq_keywordI:
  "keyword_part U kw w \<Longrightarrow> (s', g') \<in> set (rmatch U b s1 g)
   \<Longrightarrow> (s', g') \<in> set (rmatch U (Seq (Opt (Seq (Lit kw) (Plus Space))) b) (w @ s1) g)"
  unfolding seq_keyword by blast

lemma decorator_pattern_sound:
  assumes "(s', g') \<in> set (rmatch U (decorator_pattern tool_name) s g)"
  shows "\<exists>d. described_decorator U s tool_name d s' \<and> g' = g(1 \<mapsto> d)"
  using assms unfolding decorator_pattern_def cat.simps opt_async_def opt_function_def
proof (elim seq_LitE seq_StarE seq_quotedE seq_keywordE)
  fix s1 b1 s2 s3 sp1 s4 q1 d q2 s5 b2 s6 s7 sp2 s8 a s9 f s10
  assume eqs: "s = ustr ''@Tool({'' @ s1" "s1 = b1 @ s2" "s2 = ustr ''description:'' @ s3"
      "s3 = sp1 @ s4" "s4 = q1 # d @ q2 # s5" "s5 = b2 @ s6" "s6 = ustr ''})'' @ s7"
      "s7 = sp2 @ s8" "s8 = a @ s9" "s9 = f @ s10"
    and cls: "\<forall>c\<in>set b1. in_class U (NoneOf ''}'') c" "\<forall>c\<in>set sp1. in_class U Space c"
      "\<forall>c\<in>set b2. in_class U (NoneOf ''}'') c" "\<forall>c\<in>set sp2. in_class U Space c"
    and q: "q1 \<in> {34, 39}" "q2 \<in> {34, 39}" "d \<noteq> []" "34 \<notin> set d" "39 \<notin> set d"
    and kw: "keyword_part U ''async'' a" "keyword_part U ''function'' f"
    and last: "(s', g') \<in> set (rmatch U (Escaped tool_name) s10 (g(1 \<mapsto> d)))"
  from last have e: "s10 = tool_name @ s'" "g' = g(1 \<mapsto> d)" unfolding rmatch_Escaped by simp_all
  have flat: "s = ustr ''@Tool({'' @ b1 @ ustr ''description:'' @ sp1 @ q1 # d @ q2 # b2
              @ ustr ''})'' @ sp2 @ a @ f @ tool_name @ s'"
    using eqs e(1) by simp
  have b: "125 \<notin> set b1" "125 \<notin> set b2" using cls(1,3) unfolding not_brace_class by auto
  have sp: "\<forall>c\<in>set sp1. is_space U c" "\<forall>c\<in>set sp2. is_space U c" using cls(2,4) by simp_all
  have "described_decorator U s tool_name d s'"
    unfolding described_decorator_def using flat b sp q kw by blast
  with e(2) show ?thesis by blast
qed

lemma decorator_pattern_complete:
  assumes "described_decorator U s tool_name d s'"
  shows "(s', g(1 \<mapsto> d)) \<in> set (rmatch U (decorator_pattern tool_name) s g)"
proof -
  from assms obtain b1 sp1 q1 q2 b2 sp2 a f where
    flat: "s = ustr ''@Tool({'' @ b1 @ ustr ''description:'' @ sp1 @ q1 # d @ q2 # b2
              @ ustr ''})'' @ sp2 @ a @ f @ tool_name @ s'"
    and b: "125 \<notin> set b1" "125 \<notin> set b2"
    and sp: "\<forall>c\<in>set sp1. is_space U c" "\<forall>c\<in>set sp2. is_space U c"
    and q: "q1 \<in> {34, 39}" "q2 \<in> {34, 39}" "d \<noteq> []" "34 \<notin> set d" "39 \<notin> set d"
    and kw: "keyword_part U ''async'' a" "keyword_part U ''function'' f"
    unfolding described_decorator_def by blast
  have c1: "\<forall>c\<in>set b1. in_class U (NoneOf ''}'') c" using b(1) unfolding not_brace_class by auto
  have c2: "\<forall>c\<in>set b2. in_class U (NoneOf ''}'') c" using b(2) unfolding not_brace_class by auto
  have c3: "\<forall>c\<in>set sp1. in_class U Space c" using sp(1) by simp
  have c4: "\<forall>c\<in>set sp2. in_class U Space c" using sp(2) by simp
  have last: "(s', g(1 \<mapsto> d)) \<in> set (rmatch U (Escaped tool_name) (tool_name @ s') (g(1 \<mapsto> d)))"
    unfolding rmatch_Escaped by simp
  show ?thesis
    unfolding decorator_pattern_def cat.simps opt_async_def opt_function_def flat
    by (intro seq_LitI seq_StarI seq_quotedI seq_keywordI c1 c2 c3 c4 q kw last)
qed

subsection \<open>Searching a text\<close>

text \<open>
  \<open>re.search\<close> finds nothing exactly when the pattern matches at no start, and what
  it finds is the first way the pattern matches at the leftmost start that has one.
\<close>

lemma re_search_None:
  "re_search U r pos s = None \<Longrightarrow> s = pre @ s0 \<Longrightarrow> rmatch U r s0 Map.empty = []"
proof (induction s arbitrary: pos pre)
  case Nil
  then show ?case by (auto split: list.splits)
next
  case (Cons c cs)
  from Cons.prems(1) have here: "rmatch U r (c # cs) Map.empty = []"
    and rest: "re_search U r (Suc pos) cs = None"
    by (auto split: list.splits)
  show ?case
  proof (cases pre)
    case Nil
    with Cons.prems(2) here show ?thesis by simp
  next
    case (Cons a pre')
    with Cons.prems(2) have "cs = pre' @ s0" by simp
    from Cons.IH [OF rest this] show ?thesis .
  qed
qed

lemma re_search_Some:
  assumes "re_search U r pos s = Some m"
  shows "\<exists>pre s0 s' alts. s = pre @ s0 \<and> m_start m = pos + length pre
           \<and> rmatch U r s0 Map.empty = (s', m_groups m) # alts
           \<and> (\<forall>pre' s0'. s = pre' @ s0' \<and> length pre' < length pre
                 \<longrightarrow> rmatch U r s0' Map.empty = [])"
  using assms
proof (induction s arbitrary: pos)
  case Nil
  show ?case
  proof (cases "rmatch U r [] Map.empty")
    case Nil
    with Nil.prems show ?thesis by simp
  next
    case (Cons p alts)
    obtain s' g where p: "p = (s', g)" by (cases p)
    from Cons p Nil.prems have m: "m = \<lparr>m_start = pos, m_end = pos, m_groups = g\<rparr>" by simp
    have 1: "([] :: nat list) = [] @ []" by simp
    have 2: "m_start m = pos + length ([] :: nat list)" using m by simp
    have 3: "rmatch U r [] Map.empty = (s', m_groups m) # alts" using Cons p m by simp
    have 4: "\<forall>pre' s0'. ([] :: nat list) = pre' @ s0' \<and> length pre' < length ([] :: nat list)
                 \<longrightarrow> rmatch U r s0' Map.empty = []" by simp
    show ?thesis
      apply (rule exI [of _ "[]"])
      apply (rule exI [of _ "[]"])
      apply (rule exI [of _ s'])
      apply (rule exI [of _ alts])
      apply (intro conjI)
         apply (rule 1)
        apply (rule 2)
       apply (rule 3)
      apply (rule 4)
      done
  qed
next
  case (Cons c cs)
  show ?case
  proof (cases "rmatch U r (c # cs) Map.empty")
    case Nil
    with Cons.prems have "re_search U r (Suc pos) cs = Some m" by simp
    from Cons.IH [OF this] obtain pre s0 s' alts where
      h: "cs = pre @ s0" "m_start m = Suc pos + length pre"
         "rmatch U r s0 Map.empty = (s', m_groups m) # alts"
         "\<forall>pre' s0'. cs = pre' @ s0' \<and> length pre' < length pre \<longrightarrow> rmatch U r s0' Map.empty = []"
      by (elim exE conjE)
    have 4: "\<forall>pre' s0'. c # cs = pre' @ s0' \<and> length pre' < length (c # pre)
                 \<longrightarrow> rmatch U r s0' Map.empty = []"
    proof (intro allI impI)
      fix pre' s0' assume a: "c # cs = pre' @ s0' \<and> length pre' < length (c # pre)"
      show "rmatch U r s0' Map.empty = []"
      proof (cases pre')
        case Nil
        with a have "s0' = c # cs" by simp
        with \<open>rmatch U r (c # cs) Map.empty = []\<close> show ?thesis by simp
      next
        case (Cons x xs)
        with a have "cs = xs @ s0' \<and> length xs < length pre" by simp
        with h(4) [rule_format, of xs s0'] show ?thesis .
      qed
    qed
    have 1: "c # cs = (c # pre) @ s0" using h(1) by simp
    have 2: "m_start m = pos + length (c # pre)" using h(2) by simp
    show ?thesis
      apply (rule exI [of _ "c # pre"])
      apply (rule exI [of _ s0])
      apply (rule exI [of _ s'])
      apply (rule exI [of _ alts])
      apply (intro conjI)
         apply (rule 1)
        apply (rule 2)
       apply (rule h(3))
      apply (rule 4)
      done
  next
    case (Cons p alts)
    obtain s' g where p: "p = (s', g)" by (cases p)
    from Cons p Cons.prems
    have m: "m = \<lparr>m_start = pos, m_end = pos + (Suc (length cs) - length s'), m_groups = g\<rparr>"
      by simp
    have 1: "c # cs = [] @ (c # cs)" by simp
    have 2: "m_start m = pos + length ([] :: nat list)" using m by simp
    have 3: "rmatch U r (c # cs) Map.empty = (s', m_groups m) # alts" using Cons p m by simp
    have 4: "\<forall>pre' s0'. c # cs = pre' @ s0' \<and> length pre' < length ([] :: nat list)
                 \<longrightarrow> rmatch U r s0' Map.empty = []" by simp
    show ?thesis
      apply (rule exI [of _ "[]"])
      apply (rule exI [of _ "c # cs"])
      apply (rule exI [of _ s'])
      apply (rule exI [of _ alts])
      apply (intro conjI)
         apply (rule 1)
        apply (rule 2)
       apply (rule 3)
      apply (rule 4)
      done
  qed
qed

subsection \<open>Matches are never empty\<close>

text \<open>
  Every pattern of the detector starts with a literal that is not empty, so each of its
  matches consumes text: \<open>finditer\<close> never meets the empty match after which the
  model stops.
\<close>

lemma literal_first_consumes:
  assumes "l \<noteq> []" and "(s', g') \<in> set (rmatch U (Seq (Lit l) b) s g)"
  shows "length s' < length s"
proof -
  from assms(2) obtain s1 where s: "s = ustr l @ s1" and "(s', g') \<in> set (rmatch U b s1 g)"
    unfolding seq_Lit by blast
  from rmatch_suffix [OF this(2)] obtain w where "s1 = w @ s'" by blast
  with s assms(1) show ?thesis by (simp add: ustr_def)
qed

lemma detector_patterns_consume:
  assumes "r \<in> set (docstring_pattern # PYTHON_TOOL_PATTERNS @ TYPESCRIPT_TOOL_PATTERNS)
             \<or> r = decorator_pattern tool_name"
    and "(s', g') \<in> set (rmatch U r s g)"
  shows "length s' < length s"
proof -
  from assms(1) obtain l b where "r = Seq (Lit l) b" "l \<noteq> []"
    by (auto simp: docstring_pattern_def PYTHON_TOOL_PATTERNS_def TYPESCRIPT_TOOL_PATTERNS_def
        decorator_pattern_def)
  with assms(2) literal_first_consumes show ?thesis by blast
qed

subsection \<open>Python decorators\<close>

text \<open>
  Claim C6. For a Python file whose content is the decorator
  \<open>@mcp.tool(name="foo")\<close>, a newline, and \<open>def bar(): """Does X."""\<close>, the
  detector appends exactly one record: its name is \<open>foo\<close>, the name given in the
  decorator and not the function's, its description is \<open>Does X.\<close> and its line is 1.
\<close>

theorem python_explicit_name:
  \<open>detect_python_tools U path
       (Text (ustr ''@mcp.tool(name="foo")'' @ [nl] @ ustr ''def bar(): """Does X."""'')) tools
     = tools @ [\<lparr>name = ustr ''foo'', file_path = path, description = ustr ''Does X.'',
                 line_number = 1\<rparr>]
   \<and> detect_tools U json_loads
        \<lparr>repo_path = root,
         files = [(''server.py'',
                   Text (ustr ''@mcp.tool(name="foo")'' @ [nl] @ ustr ''def bar(): """Does X."""''))]\<rparr>
     = Inr [\<lparr>name = ustr ''foo'', file_path = ''server.py'', description = ustr ''Does X.'',
             line_number = 1\<rparr>]\<close>
  by code_simp

text \<open>
  Claim C7. For a Python file whose content is \<open>@tool()\<close>, a newline, and
  \<open>def baz(): pass\<close>, the detector appends exactly one record, named \<open>baz\<close> after
  the function.
\<close>

theorem python_function_name:
  \<open>detect_python_tools U path (Text (ustr ''@tool()'' @ [nl] @ ustr ''def baz(): pass'')) tools
     = tools @ [\<lparr>name = ustr ''baz'', file_path = path, description = [], line_number = 1\<rparr>]
   \<and> detect_tools U json_loads
        \<lparr>repo_path = root,
         files = [(''server.py'', Text (ustr ''@tool()'' @ [nl] @ ustr ''def baz(): pass''))]\<rparr>
     = Inr [\<lparr>name = ustr ''baz'', file_path = ''server.py'', description = [],
             line_number = 1\<rparr>]\<close>
  by code_simp

subsection \<open>TypeScript decorators\<close>

lemma ts_example:
  \<open>detect_typescript_tools U path
       (Text (ustr ''@Tool({ name: "t1", description: "desc" }) function t1() {}'')) tools
     = tools @ [\<lparr>name = ustr ''t1'', file_path = path, description = ustr ''desc'', line_number = 1\<rparr>]\<close>
  by code_simp

text \<open>
  Claim C8, as stated, fails: the description is searched for in the whole content by
  the tool's name, not in the decorator that produced the match. Of two decorators
  followed by the same identifier, the second gets the description of the first.
\<close>

theorem typescript_description_counterexample:
  \<open>detect_typescript_tools \<lparr>uni_space = (\<lambda>c. False), uni_alnum = (\<lambda>c. False)\<rparr> ''a.ts''
       (Text (ustr ''@Tool({description: "A"}) f'' @ [nl] @ ustr ''@Tool({description: "B"}) f'')) []
     = [\<lparr>name = ustr ''f'', file_path = ''a.ts'', description = ustr ''A'', line_number = 1\<rparr>,
        \<lparr>name = ustr ''f'', file_path = ''a.ts'', description = ustr ''A'', line_number = 2\<rparr>]\<close>
  by code_simp

lemma typescript_tool_description:
  assumes "t \<in> set (detect_typescript_tools U path (Text content) [])"
  shows "description t = decorator_description U content (name t)"
proof -
  from assms obtain m where "t = typescript_tool U path content m"
    by (auto simp: detect_typescript_tools_def)
  then show ?thesis by (simp add: typescript_tool_def Let_def)
qed

text \<open>The description that the lookup returns for a tool name, in terms of the content.\<close>

lemma decorator_description_cases:
  "(\<exists>pre s0 rest. content = pre @ s0
       \<and> described_decorator U s0 tool_name (decorator_description U content tool_name) rest
       \<and> (\<forall>pre' s0' d' rest'. content = pre' @ s0' \<and> described_decorator U s0' tool_name d' rest'
             \<longrightarrow> length pre \<le> length pre'))
   \<or> (decorator_description U content tool_name = []
       \<and> \<not> (\<exists>pre s0 d rest. content = pre @ s0 \<and> described_decorator U s0 tool_name d rest))"
proof (cases "re_search U (decorator_pattern tool_name) 0 content")
  case None
  have "\<not> (\<exists>pre s0 d rest. content = pre @ s0 \<and> described_decorator U s0 tool_name d rest)"
  proof
    assume "\<exists>pre s0 d rest. content = pre @ s0 \<and> described_decorator U s0 tool_name d rest"
    then obtain pre s0 d rest where c: "content = pre @ s0" "described_decorator U s0 tool_name d rest"
      by blast
    from decorator_pattern_complete [OF c(2), of Map.empty]
    have "rmatch U (decorator_pattern tool_name) s0 Map.empty \<noteq> []" by auto
    with re_search_None [OF None c(1)] show False by simp
  qed
  moreover from None have "decorator_description U content tool_name = []"
    by (simp add: decorator_description_def)
  ultimately show ?thesis by (intro disjI2 conjI)
next
  case (Some m)
  from re_search_Some [OF Some] obtain pre s0 s' alts where
    h: "content = pre @ s0"
       "rmatch U (decorator_pattern tool_name) s0 Map.empty = (s', m_groups m) # alts"
       "\<forall>pre' s0'. content = pre' @ s0' \<and> length pre' < length pre
           \<longrightarrow> rmatch U (decorator_pattern tool_name) s0' Map.empty = []"
    by (elim exE conjE)
  from h(2) have "(s', m_groups m) \<in> set (rmatch U (decorator_pattern tool_name) s0 Map.empty)"
    by simp
  from decorator_pattern_sound [OF this] obtain d where
    d: "described_decorator U s0 tool_name d s'" "m_groups m = Map.empty(1 \<mapsto> d)" by blast
  from Some d(2) have "decorator_description U content tool_name = d"
    by (simp add: decorator_description_def group_def)
  with d(1) have found: "described_decorator U s0 tool_name (decorator_description U content tool_name) s'"
    by simp
  have least: "\<forall>pre' s0' d' rest'. content = pre' @ s0' \<and> described_decorator U s0' tool_name d' rest'
             \<longrightarrow> length pre \<le> length pre'"
  proof (intro allI impI)
    fix pre' s0' d' rest'
    assume a: "content = pre' @ s0' \<and> described_decorator U s0' tool_name d' rest'"
    show "length pre \<le> length pre'"
    proof (rule ccontr)
      assume "\<not> length pre \<le> length pre'"
      then have "length pre' < length pre" by simp
      with a h(3) [rule_format, of pre' s0']
      have "rmatch U (decorator_pattern tool_name) s0' Map.empty = []" by blast
      moreover from a decorator_pattern_complete [of U s0' tool_name d' rest' Map.empty]
      have "rmatch U (decorator_pattern tool_name) s0' Map.empty \<noteq> []" by auto
      ultimately show False by simp
    qed
  qed
  have "\<exists>pre s0 rest. content = pre @ s0
       \<and> described_decorator U s0 tool_name (decorator_description U content tool_name) rest
       \<and> (\<forall>pre' s0' d' rest'. content = pre' @ s0' \<and> described_decorator U s0' tool_name d' rest'
             \<longrightarrow> length pre \<le> length pre')"
    apply (rule exI [of _ pre])
    apply (rule exI [of _ s0])
    apply (rule exI [of _ s'])
    apply (intro conjI)
      apply (rule h(1))
     apply (rule found)
    apply (rule least)
    done
  then show ?thesis by (rule disjI1)
qed

text \<open>
  Claim C8 (amended). The description of every record detected in a TypeScript file is
  found by the record's name, anywhere in the file: it is the quoted value of a
  \<open>description:\<close> field inside the braces of a decorator \<open>@Tool({...})\<close> that is
  followed (after spaces, an optional \<open>async\<close> and an optional \<open>function\<close>) by the
  record's name, taken at the first position of the file where such a decorator
  starts; it is empty when the file has no such decorator. That decorator need not be
  the invocation that produced the record, so records of one file with the same name
  have the same description. The file
  \<open>@Tool({ name: "t1", description: "desc" }) function t1() {}\<close> yields exactly one
  record, with description \<open>desc\<close>.
\<close>

theorem typescript_description_by_name:
  assumes "t \<in> set (detect_typescript_tools U path (Text content) [])"
  shows \<open>((\<exists>pre s0 rest. content = pre @ s0
            \<and> described_decorator U s0 (name t) (description t) rest
            \<and> (\<forall>pre' s0' d' rest'. content = pre' @ s0' \<and> described_decorator U s0' (name t) d' rest'
                  \<longrightarrow> length pre \<le> length pre'))
          \<or> (description t = []
              \<and> \<not> (\<exists>pre s0 d rest. content = pre @ s0 \<and> described_decorator U s0 (name t) d rest)))
       \<and> (\<forall>t'\<in>set (detect_typescript_tools U path (Text content) []).
             name t' = name t \<longrightarrow> description t' = description t)
       \<and> detect_typescript_tools U path'
            (Text (ustr ''@Tool({ name: "t1", description: "desc" }) function t1() {}'')) tools
          = tools @ [\<lparr>name = ustr ''t1'', file_path = path', description = ustr ''desc'',
                      line_number = 1\<rparr>]\<close>
proof -
  have d: "description t = decorator_description U content (name t)"
    by (rule typescript_tool_description [OF assms])
  have a: "(\<exists>pre s0 rest. content = pre @ s0
            \<and> described_decorator U s0 (name t) (description t) rest
            \<and> (\<forall>pre' s0' d' rest'. content = pre' @ s0' \<and> described_decorator U s0' (name t) d' rest'
                  \<longrightarrow> length pre \<le> length pre'))
          \<or> (description t = []
              \<and> \<not> (\<exists>pre s0 d rest. content = pre @ s0 \<and> described_decorator U s0 (name t) d rest))"
    unfolding d by (rule decorator_description_cases)
  have b: "\<forall>t'\<in>set (detect_typescript_tools U path (Text content) []).
             name t' = name t \<longrightarrow> description t' = description t"
  proof (intro ballI impI)
    fix t' assume "t' \<in> set (detect_typescript_tools U path (Text content) [])" "name t' = name t"
    with typescript_tool_description [of t' U path content] d show "description t' = description t"
      by simp
  qed
  show ?thesis by (intro conjI) (rule a, rule b, rule ts_example)
qed

lemma ts_same_name:
  \<open>detect_typescript_tools \<lparr>uni_space = (\<lambda>c. False), uni_alnum = (\<lambda>c. False)\<rparr> ''a.ts''
       (Text (ustr ''@Tool({description: "A"}) f'' @ [nl] @ ustr ''@Tool({description: "B"}) f'')) []
     = [\<lparr>name = ustr ''f'', file_path = ''a.ts'', description = ustr ''A'', line_number = 1\<rparr>,
        \<lparr>name = ustr ''f'', file_path = ''a.ts'', description = ustr ''A'', line_number = 2\<rparr>]\<close>
  by code_simp

theorem typescript_description_by_name_witness:
  \<open>\<lparr>name = ustr ''f'', file_path = ''a.ts'', description = ustr ''A'', line_number = 2\<rparr>
     \<in> set (detect_typescript_tools \<lparr>uni_space = (\<lambda>c. False), uni_alnum = (\<lambda>c. False)\<rparr> ''a.ts''
              (Text (ustr ''@Tool({description: "A"}) f'' @ [nl] @ ustr ''@Tool({description: "B"}) f''))
              [])
   \<and> (\<exists>pre s0 rest.
         ustr ''@Tool({description: "A"}) f'' @ [nl] @ ustr ''@Tool({description: "B"}) f'' = pre @ s0
         \<and> described_decorator \<lparr>uni_space = (\<lambda>c. False), uni_alnum = (\<lambda>c. False)\<rparr> s0
             (ustr ''f'') (ustr ''A'') rest)\<close>
proof -
  let ?U = "\<lparr>uni_space = (\<lambda>c. False), uni_alnum = (\<lambda>c. False)\<rparr>"
  let ?c = \<open>ustr ''@Tool({description: "A"}) f'' @ [nl] @ ustr ''@Tool({description: "B"}) f''\<close>
  let ?t = "\<lparr>name = ustr ''f'', file_path = ''a.ts'', description = ustr ''A'', line_number = 2\<rparr>"
  have mem: "?t \<in> set (detect_typescript_tools ?U ''a.ts'' (Text ?c) [])"
    unfolding ts_same_name by simp
  have ne: "description ?t \<noteq> []" by (simp add: ustr_def)
  from typescript_description_by_name [OF mem, THEN conjunct1] ne
  have "\<exists>pre s0 rest. ?c = pre @ s0
            \<and> described_decorator ?U s0 (name ?t) (description ?t) rest
            \<and> (\<forall>pre' s0' d' rest'. ?c = pre' @ s0' \<and> described_decorator ?U s0' (name ?t) d' rest'
                  \<longrightarrow> length pre \<le> length pre')"
    by (elim disjE conjE) simp_all
  then obtain pre s0 rest where
    h: "?c = pre @ s0" "described_decorator ?U s0 (name ?t) (description ?t) rest"
    by (elim exE conjE)
  from h(2) have d: "described_decorator ?U s0 (ustr ''f'') (ustr ''A'') rest"
    by (simp only: MCPTool.select_convs)
  have "\<exists>pre s0 rest. ?c = pre @ s0 \<and> described_decorator ?U s0 (ustr ''f'') (ustr ''A'') rest"
    apply (rule exI [of _ pre])
    apply (rule exI [of _ s0])
    apply (rule exI [of _ rest])
    apply (intro conjI)
     apply (rule h(1))
    apply (rule d)
    done
  with mem show ?thesis by (intro conjI)
qed

subsection \<open>The fallback record\<close>

lemma contains_mentions: "contains needle s \<longleftrightarrow> mentions needle s"
proof (induction s)
  case Nil
  show ?case by (auto simp: mentions_def)
next
  case (Cons c cs)
  show ?case
  proof
    assume "contains needle (c # cs)"
    then consider "prefix needle (c # cs)" | "contains needle cs" by auto
    then show "mentions needle (c # cs)"
    proof cases
      case 1
      then obtain post where "c # cs = [] @ needle @ post" by (auto simp: prefix_def)
      then show ?thesis unfolding mentions_def by blast
    next
      case 2
      with Cons.IH obtain pre post where "cs = pre @ needle @ post" by (auto simp: mentions_def)
      then have "c # cs = (c # pre) @ needle @ post" by simp
      then show ?thesis unfolding mentions_def by blast
    qed
  next
    assume "mentions needle (c # cs)"
    then obtain pre post where s: "c # cs = pre @ needle @ post" by (auto simp: mentions_def)
    show "contains needle (c # cs)"
    proof (cases pre)
      case Nil
      with s have "prefix needle (c # cs)" by (simp add: prefix_def)
      then show ?thesis by simp
    next
      case (Cons a pre')
      with s have "cs = pre' @ needle @ post" by simp
      then have "mentions needle cs" unfolding mentions_def by blast
      with Cons.IH show ?thesis by simp
    qed
  qed
qed

lemma fastmcp_mentions_mcp: "mentions (ustr ''fastmcp'') s \<Longrightarrow> mentions (ustr ''mcp'') s"
proof -
  assume "mentions (ustr ''fastmcp'') s"
  then obtain pre post where "s = pre @ ustr ''fastmcp'' @ post" by (auto simp: mentions_def)
  then have "s = (pre @ ustr ''fast'') @ ustr ''mcp'' @ post" by (simp add: ustr_def)
  then show ?thesis unfolding mentions_def by blast
qed

text \<open>The loop over the Python dependency files, when each of them can be read.\<close>

lemma check_python_deps_readable:
  assumes "\<forall>dep_file\<in>set deps. map_of fs dep_file \<noteq> Some Unreadable"
  shows "check_python_deps fs deps
       = Inr (\<exists>dep_file\<in>set deps. \<exists>content.
                map_of fs dep_file = Some (Text content) \<and> mentions (ustr ''mcp'') content)"
  using assms
proof (induction deps)
  case Nil
  show ?case by simp
next
  case (Cons d deps)
  from Cons.prems have rest: "\<forall>dep_file\<in>set deps. map_of fs dep_file \<noteq> Some Unreadable" by simp
  note IH = Cons.IH [OF rest]
  show ?case
  proof (cases "map_of fs d")
    case None
    with IH show ?thesis by simp
  next
    case (Some f)
    show ?thesis
    proof (cases f)
      case Unreadable
      with Some Cons.prems show ?thesis by simp
    next
      case (Text content)
      show ?thesis
      proof (cases "mentions (ustr ''mcp'') content")
        case True
        with Some Text show ?thesis by (auto simp: contains_mentions)
      next
        case False
        then have "\<not> mentions (ustr ''fastmcp'') content" using fastmcp_mentions_mcp by blast
        with False Some Text IH show ?thesis by (simp add: contains_mentions)
      qed
    qed
  qed
qed

text \<open>The first dependency file that cannot be read, met before any reference, raises.\<close>

lemma check_python_deps_unreadable:
  assumes "map_of fs dep_file = Some Unreadable"
    and "\<forall>d\<in>set before. \<forall>content. map_of fs d = Some (Text content) \<longrightarrow> \<not> mentions (ustr ''mcp'') content"
    and "\<forall>d\<in>set before. map_of fs d \<noteq> Some Unreadable"
  shows "check_python_deps fs (before @ dep_file # after) = Inl OSError"
  using assms(2,3)
proof (induction before)
  case Nil
  with assms(1) show ?case by simp
next
  case (Cons d before)
  then have IH: "check_python_deps fs (before @ dep_file # after) = Inl OSError" by simp
  show ?case
  proof (cases "map_of fs d")
    case None
    with IH show ?thesis by simp
  next
    case (Some f)
    show ?thesis
    proof (cases f)
      case Unreadable
      with Some Cons.prems show ?thesis by simp
    next
      case (Text content)
      with Some Cons.prems have no: "\<not> mentions (ustr ''mcp'') content" by simp
      then have "\<not> mentions (ustr ''fastmcp'') content" using fastmcp_mentions_mcp by blast
      with no Some Text IH show ?thesis by (simp add: contains_mentions)
    qed
  qed
qed

lemma package_json_mentions_mcp_iff:
  "package_json_mentions_mcp data
     \<longleftrightarrow> (\<exists>kvs deps dev_deps dep.
            data = JObj kvs
            \<and> py_get kvs ''dependencies'' (JObj []) = JObj deps
            \<and> py_get kvs ''devDependencies'' (JObj []) = JObj dev_deps
            \<and> dep \<in> fst ` set (deps @ dev_deps)
            \<and> (mentions ''modelcontextprotocol'' dep \<or> mentions ''mcp'' dep))"
  unfolding package_json_mentions_mcp_def contains_mentions
  by (auto split: json.splits)

text \<open>
  With Python dependency files that can be read, \<open>_is_mcp_server\<close> returns whether
  a manifest refers to MCP.
\<close>

lemma is_mcp_server_readable:
  assumes "\<forall>dep_file\<in>{''requirements.txt'', ''pyproject.toml'', ''Pipfile''}.
             map_of (files r) dep_file \<noteq> Some Unreadable"
  shows "is_mcp_server json_loads r = Inr (spec_references_mcp json_loads r)"
proof -
  define py where "py \<longleftrightarrow> (\<exists>dep_file content.
        dep_file \<in> {''requirements.txt'', ''pyproject.toml'', ''Pipfile''}
        \<and> map_of (files r) dep_file = Some (Text content)
        \<and> mentions (ustr ''mcp'') content)"
  define js where "js \<longleftrightarrow> (\<exists>content kvs deps dev_deps dep.
          map_of (files r) ''package.json'' = Some (Text content)
          \<and> json_loads content = Some (JObj kvs)
          \<and> py_get kvs ''dependencies'' (JObj []) = JObj deps
          \<and> py_get kvs ''devDependencies'' (JObj []) = JObj dev_deps
          \<and> dep \<in> fst ` set (deps @ dev_deps)
          \<and> (mentions ''modelcontextprotocol'' dep \<or> mentions ''mcp'' dep))"
  have spec: "spec_references_mcp json_loads r \<longleftrightarrow> py \<or> js"
    unfolding spec_references_mcp_def py_def js_def ..
  from assms
  have rd: "\<forall>dep_file\<in>set [''requirements.txt'', ''pyproject.toml'', ''Pipfile''].
              map_of (files r) dep_file \<noteq> Some Unreadable" by simp
  have "(\<exists>dep_file\<in>set [''requirements.txt'', ''pyproject.toml'', ''Pipfile'']. \<exists>content.
           map_of (files r) dep_file = Some (Text content) \<and> mentions (ustr ''mcp'') content)
        \<longleftrightarrow> py"
    unfolding py_def by auto
  with check_python_deps_readable [OF rd]
  have deps: "check_python_deps (files r) [''requirements.txt'', ''pyproject.toml'', ''Pipfile'']
            = Inr py" by simp
  have pkg: "(case map_of (files r) ''package.json'' of
                 Some (Text content) \<Rightarrow>
                   (case json_loads content of
                      Some data \<Rightarrow> Inr (package_json_mentions_mcp data)
                    | None \<Rightarrow> Inr False)
               | _ \<Rightarrow> Inr False) = (Inr js :: error + bool)"
  proof (cases "map_of (files r) ''package.json''")
    case None
    then show ?thesis by (simp add: js_def)
  next
    case (Some f)
    show ?thesis
    proof (cases f)
      case Unreadable
      with Some show ?thesis by (simp add: js_def)
    next
      case (Text content)
      show ?thesis
      proof (cases "json_loads content")
        case None
        with \<open>map_of (files r) ''package.json'' = Some f\<close> Text show ?thesis
          by (simp add: js_def)
      next
        case (Some data)
        with \<open>map_of (files r) ''package.json'' = Some f\<close> Text show ?thesis
          by (simp add: js_def package_json_mentions_mcp_iff)
      qed
    qed
  qed
  have "is_mcp_server json_loads r = (if py then Inr True else Inr js)"
    unfolding is_mcp_server_def deps pkg by simp
  with spec show ?thesis by simp
qed

text \<open>
  So far the fallback is as the specification describes it: with no detected tool and
  Python dependency files that can be read, \<open>detect_tools\<close> returns the one
  placeholder record when a manifest refers to MCP and the empty list otherwise.
\<close>

lemma fallback_placeholder:
  assumes "pattern_detection U r = []"
    and "\<forall>dep_file\<in>{''requirements.txt'', ''pyproject.toml'', ''Pipfile''}.
           map_of (files r) dep_file \<noteq> Some Unreadable"
  shows "detect_tools U json_loads r
       = Inr (if spec_references_mcp json_loads r
              then [\<lparr>name = ustr ''unknown'', file_path = repo_path r,
                      description = ustr ''MCP server with undetected tools'',
                      line_number = 0\<rparr>]
              else [])"
  using assms(1) is_mcp_server_readable [OF assms(2), of json_loads]
  by (simp add: detect_tools_def)

text \<open>
  Claim C5: when pattern detection yields no tool record, \<open>detect_tools\<close> returns
  exactly one record, named \<open>unknown\<close>, with the repository root as its path, the
  fixed description and line number 0, if a dependency manifest refers to MCP, and the
  empty list if none does. The code departs from this where a Python dependency file
  cannot be read. \<open>_is_mcp_server\<close> reads the three Python dependency files outside
  any \<open>try\<close>, while it reads \<open>package.json\<close> inside one: in a repository whose
  \<open>requirements.txt\<close> exists and cannot be read (a directory of that name, a file
  without read permission) and whose \<open>pyproject.toml\<close> names \<open>mcp\<close>, a manifest
  refers to MCP and no tool is detected, yet \<open>detect_tools\<close> raises instead of
  returning the placeholder. Without the unreadable file it returns the placeholder, as
  it does for a \<open>requirements.txt\<close> that mentions \<open>fastmcp\<close>; for a repository
  without manifests it returns the empty list.
\<close>

theorem unreadable_manifest_hides_reference:
  \<open>detect_tools U json_loads
      \<lparr>repo_path = ''/srv/repo'',
       files = [(''requirements.txt'', Unreadable),
                (''pyproject.toml'', Text (ustr ''dependencies = ["mcp>=1.2"]''))]\<rparr>
     = Inl OSError
   \<and> spec_references_mcp json_loads
      \<lparr>repo_path = ''/srv/repo'',
       files = [(''requirements.txt'', Unreadable),
                (''pyproject.toml'', Text (ustr ''dependencies = ["mcp>=1.2"]''))]\<rparr>
   \<and> pattern_detection U
      \<lparr>repo_path = ''/srv/repo'',
       files = [(''requirements.txt'', Unreadable),
                (''pyproject.toml'', Text (ustr ''dependencies = ["mcp>=1.2"]''))]\<rparr>
     = []
   \<and> detect_tools U json_loads
      \<lparr>repo_path = ''/srv/repo'',
       files = [(''pyproject.toml'', Text (ustr ''dependencies = ["mcp>=1.2"]''))]\<rparr>
     = Inr [\<lparr>name = ustr ''unknown'', file_path = ''/srv/repo'',
             description = ustr ''MCP server with undetected tools'', line_number = 0\<rparr>]
   \<and> detect_tools U json_loads
      \<lparr>repo_path = ''/srv/repo'', files = [(''requirements.txt'', Text (ustr ''fastmcp>=2.0''))]\<rparr>
     = Inr [\<lparr>name = ustr ''unknown'', file_path = ''/srv/repo'',
             description = ustr ''MCP server with undetected tools'', line_number = 0\<rparr>]
   \<and> detect_tools U json_loads \<lparr>repo_path = ''/srv/repo'', files = []\<rparr> = Inr []\<close>
proof -
  let ?r = \<open>\<lparr>repo_path = ''/srv/repo'',
       files = [(''requirements.txt'', Unreadable),
                (''pyproject.toml'', Text (ustr ''dependencies = ["mcp>=1.2"]''))]\<rparr>\<close>
  have a: "detect_tools U json_loads ?r = Inl OSError" by code_simp
  have "contains (ustr ''mcp'') (ustr ''dependencies = [\"mcp>=1.2\"]'')" by code_simp
  then have "mentions (ustr ''mcp'') (ustr ''dependencies = [\"mcp>=1.2\"]'')"
    by (simp only: contains_mentions)
  then have "\<exists>dep_file content.
        dep_file \<in> {''requirements.txt'', ''pyproject.toml'', ''Pipfile''}
        \<and> map_of (files ?r) dep_file = Some (Text content)
        \<and> mentions (ustr ''mcp'') content"
    by (intro exI [of _ "''pyproject.toml''"] exI [of _ "ustr ''dependencies = [\"mcp>=1.2\"]''"]) simp
  then have b: "spec_references_mcp json_loads ?r" unfolding spec_references_mcp_def by (rule disjI1)
  have c: "pattern_detection U ?r = []" by code_simp
  have d: \<open>detect_tools U json_loads
      \<lparr>repo_path = ''/srv/repo'',
       files = [(''pyproject.toml'', Text (ustr ''dependencies = ["mcp>=1.2"]''))]\<rparr>
     = Inr [\<lparr>name = ustr ''unknown'', file_path = ''/srv/repo'',
             description = ustr ''MCP server with undetected tools'', line_number = 0\<rparr>]\<close>
    by code_simp
  have e: "detect_tools U json_loads
      \<lparr>repo_path = ''/srv/repo'', files = [(''requirements.txt'', Text (ustr ''fastmcp>=2.0''))]\<rparr>
     = Inr [\<lparr>name = ustr ''unknown'', file_path = ''/srv/repo'',
             description = ustr ''MCP server with undetected tools'', line_number = 0\<rparr>]"
    by code_simp
  have f: "detect_tools U json_loads \<lparr>repo_path = ''/srv/repo'', files = []\<rparr> = Inr []"
    by code_simp
  show ?thesis by (intro conjI) (rule a, rule b, rule c, rule d, rule e, rule f)
qed

subsection \<open>Files that cannot be read\<close>

lemma detect_python_unreadable: "detect_python_tools U path Unreadable tools = tools"
  by (simp add: detect_python_tools_def)

lemma detect_typescript_unreadable: "detect_typescript_tools U path Unreadable tools = tools"
  by (simp add: detect_typescript_tools_def)

lemma python_loop_skip:
  "foldl (\<lambda>tools (path, f). detect_python_tools U path f tools) acc
      (filter P (before @ (path, Unreadable) # after))
   = foldl (\<lambda>tools (path, f). detect_python_tools U path f tools) acc
      (filter P (before @ after))"
  by (simp add: detect_python_unreadable)

lemma typescript_loop_skip:
  "foldl (\<lambda>tools (path, f). detect_typescript_tools U path f tools) acc
      (filter P (before @ (path, Unreadable) # after) @ filter Q (before @ (path, Unreadable) # after))
   = foldl (\<lambda>tools (path, f). detect_typescript_tools U path f tools) acc
      (filter P (before @ after) @ filter Q (before @ after))"
  by (simp add: detect_typescript_unreadable)

text \<open>The two loops over the source files pass over a file that cannot be read.\<close>

lemma pattern_detection_skip:
  "pattern_detection U \<lparr>repo_path = root, files = before @ (path, Unreadable) # after\<rparr>
   = pattern_detection U \<lparr>repo_path = root, files = before @ after\<rparr>"
  unfolding pattern_detection_def Let_def rglob_def
  by (simp only: repo.simps python_loop_skip typescript_loop_skip)

lemma check_python_deps_cong:
  "\<forall>d\<in>set deps. map_of fs d = map_of fs' d \<Longrightarrow>
   check_python_deps fs deps = check_python_deps fs' deps"
  by (induction deps) (auto split: option.splits source_file.splits)

text \<open>
  For every file other than the three Python dependency files, \<open>package.json\<close>
  included, a failing read changes nothing: \<open>detect_tools\<close> returns what it returns
  for the repository without the file. (A path names one file.)
\<close>

lemma unreadable_file_is_skipped:
  assumes "path \<notin> {''requirements.txt'', ''pyproject.toml'', ''Pipfile''}"
    and "path \<notin> fst ` set after"
  shows "detect_tools U json_loads \<lparr>repo_path = root, files = before @ (path, Unreadable) # after\<rparr>
       = detect_tools U json_loads \<lparr>repo_path = root, files = before @ after\<rparr>"
proof -
  let ?with = "before @ (path, Unreadable) # after"
  let ?without = "before @ after"
  have "\<forall>d\<in>set [''requirements.txt'', ''pyproject.toml'', ''Pipfile''].
          map_of ?with d = map_of ?without d"
    using assms(1) by (auto simp: map_add_def split: option.splits)
  from check_python_deps_cong [OF this]
  have deps: "check_python_deps ?with [''requirements.txt'', ''pyproject.toml'', ''Pipfile'']
            = check_python_deps ?without [''requirements.txt'', ''pyproject.toml'', ''Pipfile'']" .
  have pkg: "(case map_of ?with ''package.json'' of
                 Some (Text content) \<Rightarrow>
                   (case json_loads content of
                      Some data \<Rightarrow> Inr (package_json_mentions_mcp data)
                    | None \<Rightarrow> Inr False)
               | _ \<Rightarrow> Inr False)
           = (case map_of ?without ''package.json'' of
                 Some (Text content) \<Rightarrow>
                   (case json_loads content of
                      Some data \<Rightarrow> Inr (package_json_mentions_mcp data)
                    | None \<Rightarrow> (Inr False :: error + bool))
               | _ \<Rightarrow> Inr False)"
  proof (cases "path = ''package.json''")
    case False
    then have "map_of ?with ''package.json'' = map_of ?without ''package.json''"
      by (auto simp: map_add_def split: option.splits)
    then show ?thesis by simp
  next
    case True
    with assms(2) have none: "map_of after ''package.json'' = None"
      by (simp add: map_of_eq_None_iff)
    show ?thesis
    proof (cases "map_of before ''package.json''")
      case None
      with none True show ?thesis by (simp add: map_add_def)
    next
      case (Some f)
      with True show ?thesis by (simp add: map_add_def)
    qed
  qed
  have m: "is_mcp_server json_loads \<lparr>repo_path = root, files = ?with\<rparr>
         = is_mcp_server json_loads \<lparr>repo_path = root, files = ?without\<rparr>"
    unfolding is_mcp_server_def repo.simps deps pkg ..
  show ?thesis
    unfolding detect_tools_def Let_def pattern_detection_skip m repo.simps ..
qed

text \<open>
  Claim C9: for every file of the repository, a failing read of that file adds no tool
  record, is not surfaced to the caller and does not abort the pass. The two per-file
  detectors and \<open>package.json\<close> keep to it (\<open>unreadable_file_is_skipped\<close>). The
  three Python dependency files do not: they are read outside any \<open>try\<close>. In a
  repository with a source file that holds no tool and a \<open>requirements.txt\<close> that
  exists and cannot be read, \<open>detect_tools\<close> raises; with \<open>package.json\<close>
  unreadable in its place, or with the source file itself unreadable, it returns the
  empty list.
\<close>

theorem unreadable_manifest_aborts_detection:
  "detect_tools U json_loads
      \<lparr>repo_path = ''/srv/repo'',
       files = [(''server.py'', Text (ustr ''print(1)'')), (''requirements.txt'', Unreadable)]\<rparr>
     = Inl OSError
   \<and> detect_tools U json_loads
      \<lparr>repo_path = ''/srv/repo'',
       files = [(''server.py'', Text (ustr ''print(1)'')), (''package.json'', Unreadable)]\<rparr>
     = Inr []
   \<and> detect_tools U json_loads
      \<lparr>repo_path = ''/srv/repo'', files = [(''server.py'', Unreadable)]\<rparr>
     = Inr []"
  by code_simp

end
